theory Spec2Isabelle
  imports Main "HOL-Library.AList" "HOL-Library.Sublist"
begin

section \<open>Python strings\<close>

text \<open>
  Strings are \<^typ>\<open>string\<close> (lists of 8-bit characters).  The functions below are the
  \<^verbatim>\<open>str\<close> methods that \<^verbatim>\<open>proton.py\<close> calls, restricted to ASCII: a code point
  beyond ASCII is not a single \<^typ>\<open>char\<close>, so Unicode white space and Unicode digits
  are outside the model.
\<close>

definition NL :: char where
  "NL = CHR 0x0A"

text \<open>\<^verbatim>\<open>s.startswith(t)\<close>, \<^verbatim>\<open>s.endswith(t)\<close> and \<^verbatim>\<open>t in s\<close>.\<close>

fun startswith :: "'a list \<Rightarrow> 'a list \<Rightarrow> bool" where
  "startswith s [] = True"
| "startswith [] (c # cs) = False"
| "startswith (x # xs) (c # cs) = (x = c \<and> startswith xs cs)"

definition endswith :: "'a list \<Rightarrow> 'a list \<Rightarrow> bool" where
  "endswith s t = startswith (rev s) (rev t)"

fun py_in :: "'a list \<Rightarrow> 'a list \<Rightarrow> bool" where
  "py_in sub [] = (sub = [])"
| "py_in sub (c # cs) = (startswith (c # cs) sub \<or> py_in sub cs)"

text \<open>\<^verbatim>\<open>s.split(sep)\<close> for a one-character separator: never empty, keeps empty fields.\<close>

fun split_on :: "'a \<Rightarrow> 'a list \<Rightarrow> 'a list list" where
  "split_on sep [] = [[]]"
| "split_on sep (c # cs) =
     (if c = sep then [] # split_on sep cs
      else (case split_on sep cs of
              [] \<Rightarrow> [[c]]
            | p # ps \<Rightarrow> (c # p) # ps))"

text \<open>\<^verbatim>\<open>s.replace(old, new, 1)\<close> and \<^verbatim>\<open>s.replace(old, new)\<close> (the latter for a non-empty
  \<^verbatim>\<open>old\<close>, the only use in the source).\<close>

fun replace1 :: "'a list \<Rightarrow> 'a list \<Rightarrow> 'a list \<Rightarrow> 'a list" where
  "replace1 [] old new = (if old = [] then new else [])"
| "replace1 (c # cs) old new =
     (if startswith (c # cs) old then new @ drop (length old) (c # cs)
      else c # replace1 cs old new)"

function replace_all :: "'a list \<Rightarrow> 'a list \<Rightarrow> 'a list \<Rightarrow> 'a list" where
  "replace_all [] old new = []"
| "replace_all (c # cs) old new =
     (if old \<noteq> [] \<and> startswith (c # cs) old
      then new @ replace_all (drop (length old) (c # cs)) old new
      else c # replace_all cs old new)"
  by pat_completeness auto
termination
  by (relation "measure (\<lambda>(s, old, new). length s)") (auto simp: neq_Nil_conv)

text \<open>\<^verbatim>\<open>s.find(sub)\<close>: the first index, or -1.\<close>

fun find_from :: "int \<Rightarrow> 'a list \<Rightarrow> 'a list \<Rightarrow> int" where
  "find_from i [] sub = (if sub = [] then i else - 1)"
| "find_from i (c # cs) sub =
     (if startswith (c # cs) sub then i else find_from (i + 1) cs sub)"

definition py_find :: "'a list \<Rightarrow> 'a list \<Rightarrow> int" where
  "py_find s sub = find_from 0 s sub"

text \<open>\<^verbatim>\<open>s.strip()\<close>, \<^verbatim>\<open>s.rstrip()\<close> and \<^verbatim>\<open>s.lstrip(chars)\<close>; the white space of
  \<^verbatim>\<open>str.isspace\<close> within ASCII.\<close>

definition is_space :: "char \<Rightarrow> bool" where
  "is_space c \<longleftrightarrow> c \<in> set [CHR 0x09, CHR 0x0A, CHR 0x0B, CHR 0x0C, CHR 0x0D,
                           CHR 0x1C, CHR 0x1D, CHR 0x1E, CHR 0x1F, CHR 0x20]"

definition py_lstrip :: "string \<Rightarrow> string" where
  "py_lstrip s = dropWhile is_space s"

definition py_rstrip :: "string \<Rightarrow> string" where
  "py_rstrip s = rev (dropWhile is_space (rev s))"

definition py_strip :: "string \<Rightarrow> string" where
  "py_strip s = py_lstrip (py_rstrip s)"

definition lstrip_chars :: "string \<Rightarrow> string \<Rightarrow> string" where
  "lstrip_chars chars s = dropWhile (\<lambda>c. c \<in> set chars) s"

definition rstrip_chars :: "string \<Rightarrow> string \<Rightarrow> string" where
  "rstrip_chars chars s = rev (dropWhile (\<lambda>c. c \<in> set chars) (rev s))"

text \<open>Iterating over a text file: the lines, each ending in its newline except possibly
  the last.  Universal newlines turn \<^verbatim>\<open>\r\n\<close> and a lone \<^verbatim>\<open>\r\<close> into \<^verbatim>\<open>\n\<close>.\<close>

fun universal_newlines :: "string \<Rightarrow> string" where
  "universal_newlines [] = []"
| "universal_newlines [c] = (if c = CHR 0x0D then [NL] else [c])"
| "universal_newlines (c # d # cs) =
     (if c = CHR 0x0D \<and> d = NL then NL # universal_newlines cs
      else if c = CHR 0x0D then NL # universal_newlines (d # cs)
      else c # universal_newlines (d # cs))"

fun lines_acc :: "string \<Rightarrow> string \<Rightarrow> string list" where
  "lines_acc cur [] = (if cur = [] then [] else [cur])"
| "lines_acc cur (c # cs) =
     (if c = NL then (cur @ [NL]) # lines_acc [] cs else lines_acc (cur @ [c]) cs)"

definition file_lines :: "string \<Rightarrow> string list" where
  "file_lines content = lines_acc [] (universal_newlines content)"

section \<open>Path names (\<^verbatim>\<open>os.path\<close> on POSIX)\<close>

definition path_join :: "string \<Rightarrow> string \<Rightarrow> string" where
  "path_join a b =
     (if startswith b ''/'' then b
      else if a = [] \<or> endswith a ''/'' then a @ b
      else a @ ''/'' @ b)"

definition dirname :: "string \<Rightarrow> string" where
  "dirname p =
     (let head = rev (dropWhile (\<lambda>c. c \<noteq> CHR ''/'') (rev p))
      in if head \<noteq> [] \<and> \<not> list_all (\<lambda>c. c = CHR ''/'') head
         then rstrip_chars ''/'' head else head)"

definition basename :: "string \<Rightarrow> string" where
  "basename p = rev (takeWhile (\<lambda>c. c \<noteq> CHR ''/'') (rev p))"

text \<open>\<^verbatim>\<open>os.path.normpath\<close>: lexical, keeps leading \<^verbatim>\<open>..\<close> of a relative path.\<close>

definition normpath_step :: "bool \<Rightarrow> string list \<Rightarrow> string \<Rightarrow> string list" where
  "normpath_step absolute comps c =
     (if c = [] \<or> c = ''.'' then comps
      else if c \<noteq> ''..'' \<or> (\<not> absolute \<and> comps = []) \<or> (comps \<noteq> [] \<and> last comps = ''..'')
        then comps @ [c]
      else if comps \<noteq> [] then butlast comps
      else comps)"

fun join_with :: "string \<Rightarrow> string list \<Rightarrow> string" where
  "join_with sep [] = []"
| "join_with sep [x] = x"
| "join_with sep (x # y # ys) = x @ sep @ join_with sep (y # ys)"

definition normpath :: "string \<Rightarrow> string" where
  "normpath p =
     (if p = [] then ''.''
      else
        let slashes = (if startswith p ''/''
                       then (if startswith p ''//'' \<and> \<not> startswith p ''///'' then ''//'' else ''/'')
                       else []);
            comps = foldl (normpath_step (slashes \<noteq> [])) [] (split_on CHR ''/'' p);
            r = slashes @ join_with ''/'' comps
        in if r = [] then ''.'' else r)"

section \<open>The file system\<close>

text \<open>
  A file system is a finite table from path names, as lists of components below the
  root, to nodes: a regular file with its bytes, a symbolic link with its target string,
  or a directory.  The order of the table is the order in which a directory lists its
  entries.

  Scope of the model: the kernel resolves a symbolic link in the final component of a
  path (\<open>follow\<close>, at most 40 links, as Linux does), but the model does not resolve links
  in the directories leading to it; it describes file systems in which no proper
  ancestor of an accessed path is a symbolic link.  Relative path names are taken from
  the root.  Permissions are not modelled, so no operation fails with a permission
  error.
\<close>

datatype node = File string | Link string | Dir

type_synonym path = "string list"

type_synonym filesys = "(path \<times> node) list"

definition walk_comps :: "path \<Rightarrow> string list \<Rightarrow> path" where
  "walk_comps base comps =
     foldl (\<lambda>acc c. if c = [] \<or> c = ''.'' then acc
                     else if c = ''..'' then butlast acc
                     else acc @ [c]) base comps"

definition path_of :: "string \<Rightarrow> path" where
  "path_of s = walk_comps [] (split_on CHR ''/'' s)"

definition node_at :: "filesys \<Rightarrow> path \<Rightarrow> node option" where
  "node_at fs p = (if p = [] then Some Dir else map_of fs p)"

definition link_target :: "path \<Rightarrow> string \<Rightarrow> path" where
  "link_target p t =
     (if startswith t ''/'' then path_of t
      else walk_comps (butlast p) (split_on CHR ''/'' t))"

fun follow :: "filesys \<Rightarrow> nat \<Rightarrow> path \<Rightarrow> path option" where
  "follow fs n p =
     (case node_at fs p of
        None \<Rightarrow> None
      | Some (Link t) \<Rightarrow> (if n = 0 then None else follow fs (n - 1) (link_target p t))
      | Some _ \<Rightarrow> Some p)"

text \<open>\<^verbatim>\<open>os.lstat\<close> and \<^verbatim>\<open>os.stat\<close> as the node found, \<open>None\<close> when the call fails.\<close>

definition lstat :: "filesys \<Rightarrow> string \<Rightarrow> node option" where
  "lstat fs s = (if s = [] then None else node_at fs (path_of s))"

definition stat :: "filesys \<Rightarrow> string \<Rightarrow> node option" where
  "stat fs s =
     (if s = [] then None
      else (case follow fs 40 (path_of s) of None \<Rightarrow> None | Some q \<Rightarrow> node_at fs q))"

definition lexists :: "filesys \<Rightarrow> string \<Rightarrow> bool" where
  "lexists fs s \<longleftrightarrow> lstat fs s \<noteq> None"

definition path_exists :: "filesys \<Rightarrow> string \<Rightarrow> bool" where
  "path_exists fs s \<longleftrightarrow> stat fs s \<noteq> None"

definition islink :: "filesys \<Rightarrow> string \<Rightarrow> bool" where
  "islink fs s \<longleftrightarrow> (case lstat fs s of Some (Link t) \<Rightarrow> True | _ \<Rightarrow> False)"

definition isfile :: "filesys \<Rightarrow> string \<Rightarrow> bool" where
  "isfile fs s \<longleftrightarrow> (case stat fs s of Some (File c) \<Rightarrow> True | _ \<Rightarrow> False)"

definition isdir :: "filesys \<Rightarrow> string \<Rightarrow> bool" where
  "isdir fs s \<longleftrightarrow> stat fs s = Some Dir"

section \<open>Exceptions\<close>

datatype exn =
    ValueError
  | FileNotFoundError
  | FileExistsError
  | IsADirectoryError
  | NotADirectoryError
  | PermissionError nat
  | SameFileError
  | OSError

text \<open>Every exception of the model but \<open>ValueError\<close> is an \<^verbatim>\<open>OSError\<close>, which Python 3
  also calls \<^verbatim>\<open>IOError\<close>.\<close>

definition is_OSError :: "exn \<Rightarrow> bool" where
  "is_OSError e \<longleftrightarrow> e \<noteq> ValueError"

definition EPERM :: nat where
  "EPERM = 1"

definition readlink :: "filesys \<Rightarrow> string \<Rightarrow> exn + string" where
  "readlink fs s =
     (case lstat fs s of
        None \<Rightarrow> Inl FileNotFoundError
      | Some (Link t) \<Rightarrow> Inr t
      | Some _ \<Rightarrow> Inl OSError)"

text \<open>\<^verbatim>\<open>open(path, "rb").read()\<close>, and what \<^verbatim>\<open>seek(off); read(n)\<close> returns of it.\<close>

definition open_read :: "filesys \<Rightarrow> string \<Rightarrow> exn + string" where
  "open_read fs s =
     (case stat fs s of
        None \<Rightarrow> Inl FileNotFoundError
      | Some Dir \<Rightarrow> Inl IsADirectoryError
      | Some (File c) \<Rightarrow> Inr c
      | Some (Link t) \<Rightarrow> Inl OSError)"

definition seek_read :: "nat \<Rightarrow> nat \<Rightarrow> string \<Rightarrow> string" where
  "seek_read off n content = take n (drop off content)"

section \<open>The stub classifier\<close>

definition builtin_dirs :: "string list" where
  "builtin_dirs = [''/lib/wine/i386-windows'', ''/lib64/wine/x86_64-windows'']"

definition builtin_tags :: "string list" where
  "builtin_tags = [''Wine placeholder DLL'', ''Wine builtin DLL'']"

definition is_builtin_target :: "string \<Rightarrow> bool" where
  "is_builtin_target contents \<longleftrightarrow> list_ex (endswith (dirname contents)) builtin_dirs"

definition file_is_wine_builtin_dll :: "filesys \<Rightarrow> string \<Rightarrow> exn + bool" where
  "file_is_wine_builtin_dll fs path =
     (case (if islink fs path then readlink fs path else Inr []) of
        Inl e \<Rightarrow> Inl e
      | Inr contents \<Rightarrow>
          if islink fs path \<and> is_builtin_target contents then Inr True
          else if \<not> path_exists fs path then Inr False
          else (case open_read fs path of
                  Inl e \<Rightarrow> if is_OSError e then Inr False else Inl e
                | Inr content \<Rightarrow>
                    Inr (list_ex (startswith (seek_read 0x40 20 content)) builtin_tags)))"

section \<open>Operations on the file system\<close>

definition listdir :: "filesys \<Rightarrow> path \<Rightarrow> string list" where
  "listdir fs p = remdups (map (\<lambda>(q, n). last q) (filter (\<lambda>(q, n). q \<noteq> [] \<and> butlast q = p) fs))"

text \<open>A new entry needs its parent to be a directory.\<close>

definition parent_err :: "filesys \<Rightarrow> path \<Rightarrow> exn option" where
  "parent_err fs p =
     (case node_at fs (butlast p) of
        None \<Rightarrow> Some FileNotFoundError
      | Some Dir \<Rightarrow> None
      | Some _ \<Rightarrow> Some NotADirectoryError)"

definition fs_create :: "filesys \<Rightarrow> string \<Rightarrow> node \<Rightarrow> exn + filesys" where
  "fs_create fs s n =
     (if s = [] then Inl FileNotFoundError
      else if node_at fs (path_of s) \<noteq> None then Inl FileExistsError
      else (case parent_err fs (path_of s) of
              Some e \<Rightarrow> Inl e
            | None \<Rightarrow> Inr (AList.update (path_of s) n fs)))"

text \<open>\<^verbatim>\<open>os.remove\<close> (also \<^verbatim>\<open>os.unlink\<close>), \<^verbatim>\<open>os.rmdir\<close>, \<^verbatim>\<open>os.mkdir\<close>, \<^verbatim>\<open>os.symlink\<close>.\<close>

definition fs_remove :: "filesys \<Rightarrow> string \<Rightarrow> exn + filesys" where
  "fs_remove fs s =
     (case lstat fs s of
        None \<Rightarrow> Inl FileNotFoundError
      | Some Dir \<Rightarrow> Inl IsADirectoryError
      | Some _ \<Rightarrow> Inr (AList.delete (path_of s) fs))"

definition fs_rmdir :: "filesys \<Rightarrow> string \<Rightarrow> exn + filesys" where
  "fs_rmdir fs s =
     (case lstat fs s of
        None \<Rightarrow> Inl FileNotFoundError
      | Some Dir \<Rightarrow>
          if path_of s = [] \<or> listdir fs (path_of s) \<noteq> [] then Inl OSError
          else Inr (AList.delete (path_of s) fs)
      | Some _ \<Rightarrow> Inl NotADirectoryError)"

definition fs_mkdir :: "filesys \<Rightarrow> string \<Rightarrow> exn + filesys" where
  "fs_mkdir fs s = fs_create fs s Dir"

definition fs_symlink :: "filesys \<Rightarrow> string \<Rightarrow> string \<Rightarrow> exn + filesys" where
  "fs_symlink fs target s = fs_create fs s (Link target)"

text \<open>\<^verbatim>\<open>os.makedirs(name, exist_ok)\<close>, on the components of the name: the missing
  ancestors first (a \<^verbatim>\<open>FileExistsError\<close> from there is passed over), then the
  directory itself.\<close>

definition mkdir_at :: "filesys \<Rightarrow> path \<Rightarrow> exn + filesys" where
  "mkdir_at fs p =
     (if node_at fs p \<noteq> None then Inl FileExistsError
      else (case parent_err fs p of
              Some e \<Rightarrow> Inl e
            | None \<Rightarrow> Inr (AList.update p Dir fs)))"

definition exists_at :: "filesys \<Rightarrow> path \<Rightarrow> bool" where
  "exists_at fs p \<longleftrightarrow> follow fs 40 p \<noteq> None"

definition isdir_at :: "filesys \<Rightarrow> path \<Rightarrow> bool" where
  "isdir_at fs p \<longleftrightarrow> (case follow fs 40 p of None \<Rightarrow> False | Some q \<Rightarrow> node_at fs q = Some Dir)"

function makedirs_at :: "filesys \<Rightarrow> path \<Rightarrow> bool \<Rightarrow> exn + filesys" where
  "makedirs_at fs p exist_ok =
     (case (if p \<noteq> [] \<and> butlast p \<noteq> [] \<and> \<not> exists_at fs (butlast p)
            then (case makedirs_at fs (butlast p) exist_ok of
                    Inl e \<Rightarrow> if e = FileExistsError then Inr fs else Inl e
                  | Inr fs' \<Rightarrow> Inr fs')
            else Inr fs) of
        Inl e \<Rightarrow> Inl e
      | Inr fs1 \<Rightarrow>
          (case mkdir_at fs1 p of
             Inl e \<Rightarrow> if \<not> exist_ok \<or> \<not> isdir_at fs1 p then Inl e else Inr fs1
           | Inr fs2 \<Rightarrow> Inr fs2))"
  by pat_completeness auto
termination
  by (relation "measure (\<lambda>(fs, p, e). length p)") auto

definition fs_makedirs :: "filesys \<Rightarrow> string \<Rightarrow> bool \<Rightarrow> exn + filesys" where
  "fs_makedirs fs s exist_ok =
     (if s = [] then Inl FileNotFoundError else makedirs_at fs (path_of s) exist_ok)"

text \<open>\<^verbatim>\<open>os.rename\<close>: a directory moves with everything below it; an existing destination
  is replaced when it is a non-directory (for a non-directory source) or an empty
  directory (for a directory source).\<close>

definition rekey :: "path \<Rightarrow> path \<Rightarrow> filesys \<Rightarrow> filesys" where
  "rekey a b fs = map (\<lambda>(q, n). if startswith q a then (b @ drop (length a) q, n) else (q, n)) fs"

definition fs_rename :: "filesys \<Rightarrow> string \<Rightarrow> string \<Rightarrow> exn + filesys" where
  "fs_rename fs src dst =
     (case lstat fs src of
        None \<Rightarrow> Inl FileNotFoundError
      | Some n \<Rightarrow>
          if dst = [] then Inl FileNotFoundError
          else if path_of src = path_of dst then Inr fs
          else (case parent_err fs (path_of dst) of
                  Some e \<Rightarrow> Inl e
                | None \<Rightarrow>
                    if n = Dir \<and> startswith (path_of dst) (path_of src) then Inl OSError
                    else (case node_at fs (path_of dst) of
                            None \<Rightarrow> Inr (rekey (path_of src) (path_of dst) fs)
                          | Some Dir \<Rightarrow>
                              if n \<noteq> Dir then Inl IsADirectoryError
                              else if listdir fs (path_of dst) \<noteq> [] then Inl OSError
                              else Inr (rekey (path_of src) (path_of dst)
                                          (AList.delete (path_of dst) fs))
                          | Some _ \<Rightarrow>
                              if n = Dir then Inl NotADirectoryError
                              else Inr (rekey (path_of src) (path_of dst)
                                          (AList.delete (path_of dst) fs)))))"

text \<open>\<^verbatim>\<open>shutil.rmtree\<close>: refuses a symbolic link, removes a directory with everything
  below it.\<close>

definition fs_rmtree :: "filesys \<Rightarrow> string \<Rightarrow> exn + filesys" where
  "fs_rmtree fs s =
     (case lstat fs s of
        None \<Rightarrow> Inl FileNotFoundError
      | Some Dir \<Rightarrow>
          if path_of s = [] then Inl OSError
          else Inr (filter (\<lambda>(q, n). \<not> startswith q (path_of s)) fs)
      | Some (Link t) \<Rightarrow> Inl OSError
      | Some (File c) \<Rightarrow> Inl NotADirectoryError)"

text \<open>Opening for writing follows symbolic links, also a dangling one, to the path where
  the file is or will be; \<open>open_write\<close> returns that path as the handle.  Mode
  \<^verbatim>\<open>"w"\<close> truncates, mode \<^verbatim>\<open>"a"\<close> does not.\<close>

fun follow_w :: "filesys \<Rightarrow> nat \<Rightarrow> path \<Rightarrow> path option" where
  "follow_w fs n p =
     (case node_at fs p of
        Some (Link t) \<Rightarrow> (if n = 0 then None else follow_w fs (n - 1) (link_target p t))
      | _ \<Rightarrow> Some p)"

definition open_write :: "filesys \<Rightarrow> string \<Rightarrow> bool \<Rightarrow> exn + (path \<times> filesys)" where
  "open_write fs s trunc =
     (if s = [] then Inl FileNotFoundError
      else (case follow_w fs 40 (path_of s) of
              None \<Rightarrow> Inl OSError
            | Some q \<Rightarrow>
                (case node_at fs q of
                   Some Dir \<Rightarrow> Inl IsADirectoryError
                 | Some (Link t) \<Rightarrow> Inl OSError
                 | Some (File c) \<Rightarrow> Inr (q, if trunc then AList.update q (File []) fs else fs)
                 | None \<Rightarrow>
                     (case parent_err fs q of
                        Some e \<Rightarrow> Inl e
                      | None \<Rightarrow> Inr (q, AList.update q (File []) fs)))))"

text \<open>Closing a handle appends what was written through it to the file, if the path
  the handle was opened at still holds a regular file.\<close>

definition flush_to :: "filesys \<Rightarrow> path \<Rightarrow> string \<Rightarrow> filesys" where
  "flush_to fs q buf =
     (case node_at fs q of
        Some (File c) \<Rightarrow> AList.update q (File (c @ buf)) fs
      | _ \<Rightarrow> fs)"

text \<open>\<^verbatim>\<open>os.path.samefile\<close>, \<^verbatim>\<open>shutil.copyfile\<close>, \<^verbatim>\<open>shutil.copy\<close> and \<^verbatim>\<open>shutil.copy2\<close>.
  File modes and times are not modelled, so \<open>copy\<close> and \<open>copy2\<close> differ in nothing,
  and \<^verbatim>\<open>os.chmod\<close> only checks that its path exists.\<close>

definition samefile :: "filesys \<Rightarrow> string \<Rightarrow> string \<Rightarrow> exn + bool" where
  "samefile fs a b =
     (if a = [] \<or> b = [] then Inl FileNotFoundError
      else (case (follow fs 40 (path_of a), follow fs 40 (path_of b)) of
              (Some p, Some q) \<Rightarrow> Inr (p = q)
            | _ \<Rightarrow> Inl FileNotFoundError))"

definition fs_copyfile :: "filesys \<Rightarrow> string \<Rightarrow> string \<Rightarrow> bool \<Rightarrow> exn + filesys" where
  "fs_copyfile fs src dst follow_symlinks =
     (if samefile fs src dst = Inr True then Inl SameFileError
      else if \<not> follow_symlinks \<and> islink fs src then
        (case readlink fs src of
           Inl e \<Rightarrow> Inl e
         | Inr t \<Rightarrow> fs_symlink fs t dst)
      else (case open_read fs src of
              Inl e \<Rightarrow> Inl e
            | Inr content \<Rightarrow>
                (case open_write fs dst True of
                   Inl e \<Rightarrow> Inl e
                 | Inr (q, fs') \<Rightarrow> Inr (flush_to fs' q content))))"

definition fs_copy :: "filesys \<Rightarrow> string \<Rightarrow> string \<Rightarrow> bool \<Rightarrow> exn + filesys" where
  "fs_copy fs src dst follow_symlinks =
     fs_copyfile fs src (if isdir fs dst then path_join dst (basename src) else dst) follow_symlinks"

definition fs_copy2 :: "filesys \<Rightarrow> string \<Rightarrow> string \<Rightarrow> bool \<Rightarrow> exn + filesys" where
  "fs_copy2 fs src dst follow_symlinks = fs_copy fs src dst follow_symlinks"

definition fs_chmod_add_write :: "filesys \<Rightarrow> string \<Rightarrow> exn + filesys" where
  "fs_chmod_add_write fs s =
     (if lstat fs s = None \<or> stat fs s = None then Inl FileNotFoundError else Inr fs)"

text \<open>\<^verbatim>\<open>os.walk(top)\<close>, top-down, not following links: a directory lists its entries in
  the order of the table; a name is among \<open>dirs\<close> when it is a directory or a link to
  one.  The walk is taken when the loop starts: the loops of the script write to another
  tree than the one they walk.  The fuel is the size of the table, which bounds the depth
  of any directory in it.\<close>

fun walk_fuel :: "nat \<Rightarrow> filesys \<Rightarrow> string \<Rightarrow> (string \<times> string list \<times> string list) list" where
  "walk_fuel 0 fs topdir = []"
| "walk_fuel (Suc n) fs topdir =
     (if lstat fs topdir \<noteq> Some Dir then []
      else
        let names = listdir fs (path_of topdir);
            dirs = filter (\<lambda>d. isdir fs (path_join topdir d)) names;
            nondirs = filter (\<lambda>d. \<not> isdir fs (path_join topdir d)) names
        in (topdir, dirs, nondirs) #
           concat (map (\<lambda>d. walk_fuel n fs (path_join topdir d))
                        (filter (\<lambda>d. \<not> islink fs (path_join topdir d)) dirs)))"

definition os_walk :: "filesys \<Rightarrow> string \<Rightarrow> (string \<times> string list \<times> string list) list" where
  "os_walk fs topdir = walk_fuel (Suc (length fs)) fs topdir"

section \<open>The state of a run and its monad\<close>

text \<open>
  A run of the script acts on the file system and writes messages to \<^verbatim>\<open>stderr\<close>.
  \<open>wbuf\<close> is the text written through the file object that is open for writing and not
  yet closed: Python buffers it, and the script never flushes, so it reaches the file
  when the \<^verbatim>\<open>with\<close> block closes the file.  An action returns a value or raises.
\<close>

record world =
  disk :: filesys
  stderr :: "string list"
  wbuf :: string

type_synonym 'a io = "world \<Rightarrow> (exn + 'a) \<times> world"

definition io_return :: "'a \<Rightarrow> 'a io" where
  "io_return x = (\<lambda>w. (Inr x, w))"

definition io_raise :: "exn \<Rightarrow> 'a io" where
  "io_raise e = (\<lambda>w. (Inl e, w))"

definition io_bind :: "'a io \<Rightarrow> ('a \<Rightarrow> 'b io) \<Rightarrow> 'b io" where
  "io_bind m f = (\<lambda>w. case m w of (Inl e, w') \<Rightarrow> (Inl e, w') | (Inr x, w') \<Rightarrow> f x w')"

definition io_seq :: "unit io \<Rightarrow> 'b io \<Rightarrow> 'b io" where
  "io_seq m k = io_bind m (\<lambda>_. k)"

text \<open>\<^verbatim>\<open>try: m  except: h\<close>; the handler re-raises what it does not catch.\<close>

definition io_try :: "'a io \<Rightarrow> (exn \<Rightarrow> 'a io) \<Rightarrow> 'a io" where
  "io_try m h = (\<lambda>w. case m w of (Inl e, w') \<Rightarrow> h e w' | (Inr x, w') \<Rightarrow> (Inr x, w'))"

definition io_read :: "(filesys \<Rightarrow> 'a) \<Rightarrow> 'a io" where
  "io_read f = (\<lambda>w. (Inr (f (disk w)), w))"

definition io_get :: "(filesys \<Rightarrow> exn + 'a) \<Rightarrow> 'a io" where
  "io_get f = (\<lambda>w. (f (disk w), w))"

definition io_lift :: "exn + 'a \<Rightarrow> 'a io" where
  "io_lift r = (\<lambda>w. (r, w))"

definition io_update :: "(filesys \<Rightarrow> exn + filesys) \<Rightarrow> unit io" where
  "io_update f = (\<lambda>w. case f (disk w) of Inl e \<Rightarrow> (Inl e, w) | Inr fs' \<Rightarrow> (Inr (), w\<lparr>disk := fs'\<rparr>))"

fun for_each :: "'a list \<Rightarrow> ('a \<Rightarrow> unit io) \<Rightarrow> unit io" where
  "for_each [] body = io_return ()"
| "for_each (x # xs) body = io_seq (body x) (for_each xs body)"

fun for_fold :: "'a list \<Rightarrow> 's \<Rightarrow> ('a \<Rightarrow> 's \<Rightarrow> 's io) \<Rightarrow> 's io" where
  "for_fold [] acc body = io_return acc"
| "for_fold (x # xs) acc body = io_bind (body x acc) (\<lambda>acc'. for_fold xs acc' body)"

text \<open>\<^verbatim>\<open>with open(s, mode) as f: body\<close> for the writing modes, and \<^verbatim>\<open>f.write(text)\<close>.\<close>

definition with_open_write :: "string \<Rightarrow> bool \<Rightarrow> 'a io \<Rightarrow> 'a io" where
  "with_open_write s trunc body =
     (\<lambda>w. case open_write (disk w) s trunc of
             Inl e \<Rightarrow> (Inl e, w)
           | Inr (q, fs') \<Rightarrow>
               (case body (w\<lparr>disk := fs', wbuf := []\<rparr>) of
                  (r, w1) \<Rightarrow> (r, w1\<lparr>disk := flush_to (disk w1) q (wbuf w1), wbuf := wbuf w\<rparr>)))"

definition handle_write :: "string \<Rightarrow> unit io" where
  "handle_write txt = (\<lambda>w. (Inr (), w\<lparr>wbuf := wbuf w @ txt\<rparr>))"

subsection \<open>The functions of the script above the classes\<close>

definition PFX :: string where
  "PFX = ''Proton: ''"

definition CURRENT_PREFIX_VERSION :: string where
  "CURRENT_PREFIX_VERSION = ''6.20-GE-1''"

definition log :: "string \<Rightarrow> unit io" where
  "log msg = (\<lambda>w. (Inr (), w\<lparr>stderr := stderr w @ [PFX @ msg @ [NL]]\<rparr>))"

definition makedirs :: "string \<Rightarrow> unit io" where
  "makedirs path =
     io_try (io_update (\<lambda>fs. fs_makedirs fs path False))
            (\<lambda>e. if is_OSError e then io_return () else io_raise e)"

definition strerror :: "exn \<Rightarrow> string" where
  "strerror e =
     (case e of
        FileNotFoundError \<Rightarrow> ''No such file or directory''
      | PermissionError n \<Rightarrow> (if n = EPERM then ''Operation not permitted'' else ''Permission denied'')
      | _ \<Rightarrow> [])"

definition copy_error_msg :: "string \<Rightarrow> exn \<Rightarrow> string" where
  "copy_error_msg dst e = ''Error while copying to \"'' @ dst @ ''\": '' @ strerror e"

definition try_copy :: "string \<Rightarrow> string \<Rightarrow> bool \<Rightarrow> bool \<Rightarrow> bool \<Rightarrow> bool \<Rightarrow> unit io" where
  "try_copy src dst add_write_perm copy_metadata optional follow_symlinks =
     io_try
       (io_bind (io_read (\<lambda>fs. isdir fs dst)) (\<lambda>dst_isdir.
        let dstfile = (if dst_isdir then dst @ ''/'' @ basename src else dst) in
        io_seq (io_bind (io_read (\<lambda>fs. lexists fs dstfile)) (\<lambda>there.
                  if there then io_update (\<lambda>fs. fs_remove fs dstfile) else io_return ()))
       (io_seq (if copy_metadata then io_update (\<lambda>fs. fs_copy2 fs src dst follow_symlinks)
                else io_update (\<lambda>fs. fs_copy fs src dst follow_symlinks))
               (if add_write_perm then io_update (\<lambda>fs. fs_chmod_add_write fs dstfile)
                else io_return ()))))
       (\<lambda>e. if e = FileNotFoundError then
               (if optional then log (copy_error_msg dst e) else io_raise e)
             else (case e of
                     PermissionError n \<Rightarrow>
                       if n = EPERM then log (copy_error_msg dst e) else io_raise e
                   | _ \<Rightarrow> io_raise e))"

definition try_copyfile :: "string \<Rightarrow> string \<Rightarrow> unit io" where
  "try_copyfile src dst =
     io_try
       (io_bind (io_read (\<lambda>fs. isdir fs dst)) (\<lambda>dst_isdir.
        io_seq (if dst_isdir then
                  (let dstfile = dst @ ''/'' @ basename src in
                   io_bind (io_read (\<lambda>fs. lexists fs dstfile)) (\<lambda>there.
                     if there then io_update (\<lambda>fs. fs_remove fs dstfile) else io_return ()))
                else
                  io_bind (io_read (\<lambda>fs. lexists fs dst)) (\<lambda>there.
                    if there then io_update (\<lambda>fs. fs_remove fs dst) else io_return ()))
               (io_update (\<lambda>fs. fs_copyfile fs src dst True))))
       (\<lambda>e. case e of
               PermissionError n \<Rightarrow>
                 if n = EPERM then log (copy_error_msg dst e) else io_raise e
             | _ \<Rightarrow> io_raise e)"

section \<open>The classes \<^verbatim>\<open>Proton\<close> and \<^verbatim>\<open>CompatData\<close>\<close>

text \<open>An object of either class is its \<^verbatim>\<open>base_dir\<close>; every other attribute is a path
  below it.  The locks are not modelled: a run is the only process.\<close>

record Proton =
  proton_base_dir :: string

definition Proton_init :: "string \<Rightarrow> Proton" where
  "Proton_init base = \<lparr>proton_base_dir = base @ ''/''\<rparr>"

definition proton_path :: "Proton \<Rightarrow> string \<Rightarrow> string" where
  "proton_path g d = proton_base_dir g @ d"

definition fonts_dir :: "Proton \<Rightarrow> string" where
  "fonts_dir g = proton_path g ''files/share/fonts/''"

definition wine_fonts_dir :: "Proton \<Rightarrow> string" where
  "wine_fonts_dir g = proton_path g ''files/share/wine/fonts/''"

definition lib_dir :: "Proton \<Rightarrow> string" where
  "lib_dir g = proton_path g ''files/lib/''"

definition lib64_dir :: "Proton \<Rightarrow> string" where
  "lib64_dir g = proton_path g ''files/lib64/''"

definition default_pfx_dir :: "Proton \<Rightarrow> string" where
  "default_pfx_dir g = proton_path g ''files/share/default_pfx/''"

record CompatData =
  base_dir :: string

definition CompatData_init :: "string \<Rightarrow> CompatData" where
  "CompatData_init compatdata = \<lparr>base_dir = compatdata @ ''/''\<rparr>"

definition compat_path :: "CompatData \<Rightarrow> string \<Rightarrow> string" where
  "compat_path c d = base_dir c @ d"

definition prefix_dir :: "CompatData \<Rightarrow> string" where
  "prefix_dir c = compat_path c ''pfx/''"

definition version_file :: "CompatData \<Rightarrow> string" where
  "version_file c = compat_path c ''version''"

definition config_info_file :: "CompatData \<Rightarrow> string" where
  "config_info_file c = compat_path c ''config_info''"

definition tracked_files_file :: "CompatData \<Rightarrow> string" where
  "tracked_files_file c = compat_path c ''tracked_files''"

subsection \<open>\<^verbatim>\<open>remove_tracked_files\<close>\<close>

definition remove_tracked_entry :: "CompatData \<Rightarrow> string \<Rightarrow> string list \<Rightarrow> string list io" where
  "remove_tracked_entry c f dirs =
     (let path = prefix_dir c @ py_strip f in
      io_bind (io_read (\<lambda>fs. path_exists fs path)) (\<lambda>there.
        if there then
          io_bind (io_read (\<lambda>fs. isfile fs path \<or> islink fs path)) (\<lambda>file_or_link.
            if file_or_link then io_seq (io_update (\<lambda>fs. fs_remove fs path)) (io_return dirs)
            else io_return (dirs @ [path]))
        else io_return dirs))"

definition rmdir_quietly :: "string \<Rightarrow> unit io" where
  "rmdir_quietly d =
     io_try (io_update (\<lambda>fs. fs_rmdir fs d))
            (\<lambda>e. if is_OSError e then io_return () else io_raise e)"

definition remove_tracked_files :: "CompatData \<Rightarrow> unit io" where
  "remove_tracked_files c =
     io_bind (io_read (\<lambda>fs. path_exists fs (tracked_files_file c))) (\<lambda>there.
       if \<not> there then log ''Prefix has no tracked_files??''
       else
         io_seq
           (io_bind (io_get (\<lambda>fs. open_read fs (tracked_files_file c))) (\<lambda>tracked_files.
            io_bind (for_fold (file_lines tracked_files) [] (remove_tracked_entry c)) (\<lambda>dirs.
            for_each dirs rmdir_quietly)))
           (io_seq (io_update (\<lambda>fs. fs_remove fs (tracked_files_file c)))
                   (io_update (\<lambda>fs. fs_remove fs (version_file c)))))"

subsection \<open>\<^verbatim>\<open>upgrade_pfx\<close>\<close>

text \<open>\<^verbatim>\<open>int(s)\<close> on a string: white space around, an optional sign, decimal digits with
  single underscores between them.  \<^verbatim>\<open>a, b = xs\<close> raises \<^verbatim>\<open>ValueError\<close> unless
  \<^verbatim>\<open>xs\<close> has exactly two elements.\<close>

definition is_digit :: "char \<Rightarrow> bool" where
  "is_digit c \<longleftrightarrow> c \<in> set ''0123456789''"

definition digit_val :: "char \<Rightarrow> int" where
  "digit_val c = int (of_char c) - 48"

fun digits_ok :: "string \<Rightarrow> bool" where
  "digits_ok [] = False"
| "digits_ok [c] = is_digit c"
| "digits_ok (c # d # cs) =
     (is_digit c \<and> (if d = CHR ''_'' then digits_ok cs else digits_ok (d # cs)))"

definition py_int :: "string \<Rightarrow> exn + int" where
  "py_int s =
     (let t = py_strip s;
          negative = startswith t ''-'';
          body = (if startswith t ''-'' \<or> startswith t ''+'' then tl t else t)
      in if digits_ok body
         then Inr ((if negative then - 1 else 1) *
                   foldl (\<lambda>a c. 10 * a + digit_val c) 0 (filter is_digit body))
         else Inl ValueError)"

definition unpack2 :: "'a list \<Rightarrow> exn + ('a \<times> 'a)" where
  "unpack2 xs = (case xs of [a, b] \<Rightarrow> Inr (a, b) | _ \<Rightarrow> Inl ValueError)"

definition ebind :: "exn + 'a \<Rightarrow> ('a \<Rightarrow> exn + 'b) \<Rightarrow> exn + 'b" where
  "ebind r f = (case r of Inl e \<Rightarrow> Inl e | Inr x \<Rightarrow> f x)"

text \<open>The test of lines 400-402: is the current tag lower than the recorded one at
  \<open>(major, minor)\<close>?  The conversions run in the order of the source.\<close>

definition is_downgrade :: "string \<Rightarrow> string \<Rightarrow> string \<Rightarrow> string \<Rightarrow> exn + bool" where
  "is_downgrade new_proton_maj new_proton_min old_proton_maj old_proton_min =
     ebind (py_int new_proton_maj) (\<lambda>nmaj.
     ebind (py_int old_proton_maj) (\<lambda>omaj.
       if nmaj < omaj then Inr True
       else if nmaj = omaj then
         ebind (py_int new_proton_min) (\<lambda>nmin.
         ebind (py_int old_proton_min) (\<lambda>omin. Inr (nmin < omin)))
       else Inr False))"

definition invalid_version_msg :: string where
  "invalid_version_msg =
     ''Prefix has an invalid version?! You may want to back up user files and delete this prefix.''"

text \<open>Lines 403-408: the wipe of a prefix that a newer version made.\<close>

definition remove_newer_prefix :: "Proton \<Rightarrow> CompatData \<Rightarrow> string \<Rightarrow> unit io" where
  "remove_newer_prefix g c old_proton_ver =
     io_seq (log ''Removing newer prefix'')
    (io_seq (io_bind (io_read (\<lambda>fs. path_exists fs (tracked_files_file c))) (\<lambda>there.
               if old_proton_ver = ''3.7'' \<and> \<not> there
               then try_copy (proton_path g ''proton_3.7_tracked_files'') (tracked_files_file c)
                      True False False True
               else io_return ()))
            (remove_tracked_files c))"

text \<open>Lines 417-422: a broken .NET installation.\<close>

definition patch_dotnet :: "CompatData \<Rightarrow> unit io" where
  "patch_dotnet c =
     io_bind (io_read (\<lambda>fs. path_exists fs
                (prefix_dir c @ ''/drive_c/windows/Microsoft.NET/NETFXRepair.exe''))) (\<lambda>repair.
       if \<not> repair then io_return ()
       else io_bind (io_get (\<lambda>fs. file_is_wine_builtin_dll fs
                       (prefix_dir c @ ''/drive_c/windows/system32/mscoree.dll''))) (\<lambda>builtin.
              if \<not> builtin then io_return ()
              else io_seq (log ''Broken .NET installation detected, switching to wine-mono.'')
                          (io_update (\<lambda>fs. fs_rmtree fs
                             (prefix_dir c @ ''/drive_c/windows/Microsoft.NET'')))))"

text \<open>Lines 424-448: the xinput registry entries.  \<open>xinput_line\<close> is what the loop writes
  for one line.\<close>

definition xinput_line :: "string \<Rightarrow> string" where
  "xinput_line line =
     (if startswith line ''['' \<and> py_in ''CurrentControlSet'' line \<and> py_in ''IG_'' line then
        (if py_in ''DeviceClasses'' line then replace_all line ''DeviceClasses'' ''DeviceClasses_old''
         else if py_in ''Enum'' line then replace_all line ''Enum'' ''Enum_old''
         else [])
      else line)"

definition rewrite_file :: "string \<Rightarrow> string \<Rightarrow> (string \<Rightarrow> string) \<Rightarrow> unit io" where
  "rewrite_file src dst f =
     io_bind (io_get (\<lambda>fs. open_read fs src)) (\<lambda>reg_in.
       with_open_write dst True
         (for_each (file_lines reg_in) (\<lambda>line. handle_write (f line))))"

definition needs_xinput_patch :: "string \<Rightarrow> string \<Rightarrow> string \<Rightarrow> exn + bool" where
  "needs_xinput_patch old_proton_maj old_proton_min old_prefix_ver =
     ebind (ebind (py_int old_proton_maj) (\<lambda>maj.
              if maj < 4 then Inr True
              else if maj = 4 then ebind (py_int old_proton_min) (\<lambda>mn. Inr (mn = 11))
              else Inr False)) (\<lambda>older.
       if older then ebind (py_int old_prefix_ver) (\<lambda>rev. Inr (rev < 2)) else Inr False)"

definition patch_xinput :: "CompatData \<Rightarrow> unit io" where
  "patch_xinput c =
     io_seq (log ''Removing old xinput registry entries.'')
    (io_seq (rewrite_file (prefix_dir c @ ''system.reg'') (prefix_dir c @ ''system.reg.new'')
               xinput_line)
    (io_seq (io_try (io_update (\<lambda>fs. fs_rename fs (prefix_dir c @ ''system.reg'')
                                         (prefix_dir c @ ''system.reg.old'')))
                    (\<lambda>e. if is_OSError e
                          then io_update (\<lambda>fs. fs_remove fs (prefix_dir c @ ''system.reg''))
                          else io_raise e))
            (io_try (io_update (\<lambda>fs. fs_rename fs (prefix_dir c @ ''system.reg.new'')
                                         (prefix_dir c @ ''system.reg'')))
                    (\<lambda>e. if is_OSError e
                          then log (''Unable to write new registry file to '' @
                                    prefix_dir c @ ''system.reg'')
                          else io_raise e))))"

text \<open>Lines 450-494: the ShellExecute DDE registry entries.\<close>

definition bs2 :: string where
  "bs2 = [CHR 0x5C, CHR 0x5C]"

definition dde_key :: "string \<Rightarrow> string" where
  "dde_key cls =
     ''[Software'' @ bs2 @ ''Classes'' @ bs2 @ cls @ bs2 @ ''shell'' @ bs2 @ ''open'' @ bs2 @
     ''ddeexec''"

definition delete_keys :: "string list" where
  "delete_keys = map dde_key [''htmlfile'', ''pdffile'', ''xmlfile'', ''ftp'', ''http'', ''https'']"

definition dde_wb :: string where
  "dde_wb =
     ''@=\"'' @ [CHR 0x5C] @ ''\"C:'' @ bs2 @ ''windows'' @ bs2 @ ''system32'' @ bs2 @
     ''winebrowser.exe'' @ [CHR 0x5C] @ ''\" -nohome\"''"

definition dde_line :: "string \<Rightarrow> string" where
  "dde_line line =
     (if take (nat (py_find line ''ddeexec'' + 7)) line \<in> set delete_keys
        then replace1 line ''ddeexec'' ''ddeexec_old''
      else if py_rstrip line = dde_wb then replace_all line ''-nohome'' ''%1''
      else line)"

definition needs_dde_patch :: "string \<Rightarrow> string \<Rightarrow> string \<Rightarrow> exn + bool" where
  "needs_dde_patch old_proton_maj old_proton_min old_prefix_ver =
     ebind (py_int old_proton_maj) (\<lambda>maj.
       if maj < 6 then Inr True
       else if maj = 6 then
         ebind (py_int old_proton_min) (\<lambda>mn.
           if mn < 3 then Inr True
           else if mn = 3 then ebind (py_int old_prefix_ver) (\<lambda>rev. Inr (rev < 3))
           else Inr False)
       else Inr False)"

function hex :: "nat \<Rightarrow> string" where
  "hex n = (if n < 16 then [''0123456789abcdef'' ! n]
            else hex (n div 16) @ [''0123456789abcdef'' ! (n mod 16)])"
  by pat_completeness auto
termination
  by (relation "measure id") auto

text \<open>\<open>rnd\<close> is the value \<^verbatim>\<open>randrange(16 ** 8)\<close> returns.\<close>

definition patch_dde :: "CompatData \<Rightarrow> nat \<Rightarrow> unit io" where
  "patch_dde c rnd =
     (let sysreg_fp = prefix_dir c @ ''system.reg'';
          new_sysreg_fp = prefix_dir c @ ''system.reg.new'';
          backup_sysreg_fp = prefix_dir c @ ''system.reg.'' @ hex rnd @ ''.old''
      in
      io_seq (log ''Removing ShellExecute DDE registry entries.'')
     (io_seq (rewrite_file sysreg_fp new_sysreg_fp dde_line)
     (io_seq (io_try (io_update (\<lambda>fs. fs_rename fs sysreg_fp backup_sysreg_fp))
                     (\<lambda>e. if is_OSError e
                           then io_seq (log ''Failed to back up old system.reg. Simply deleting it.'')
                                       (io_update (\<lambda>fs. fs_remove fs sysreg_fp))
                           else io_raise e))
             (io_try (io_update (\<lambda>fs. fs_rename fs new_sysreg_fp sysreg_fp))
                     (\<lambda>e. if is_OSError e
                           then log (''Unable to write new registry file to '' @ sysreg_fp)
                           else io_raise e)))))"

text \<open>Lines 496-501: stale builtins.\<close>

definition remove_stale_builtin :: "string \<Rightarrow> unit io" where
  "remove_stale_builtin builtin =
     io_bind (io_read (\<lambda>fs. lexists fs builtin)) (\<lambda>there.
       if \<not> there then io_return ()
       else io_bind (io_get (\<lambda>fs. file_is_wine_builtin_dll fs builtin)) (\<lambda>stub.
              if \<not> stub then io_return ()
              else io_seq (log (''Removing stale builtin '' @ builtin))
                          (io_update (\<lambda>fs. fs_remove fs builtin))))"

definition stale_builtins :: "CompatData \<Rightarrow> string list" where
  "stale_builtins c =
     [prefix_dir c @ ''/drive_c/windows/system32/amd_ags_x64.dll'',
      prefix_dir c @ ''/drive_c/windows/syswow64/amd_ags_x64.dll'']"

text \<open>Lines 410-501, what follows the downgrade test.\<close>

definition forward_patches ::
  "CompatData \<Rightarrow> nat \<Rightarrow> string \<Rightarrow> string \<Rightarrow> string \<Rightarrow> string \<Rightarrow> unit io" where
  "forward_patches c rnd old_proton_ver old_prefix_ver old_proton_maj old_proton_min =
     io_bind (io_read (\<lambda>fs. path_exists fs
                (prefix_dir c @ ''/drive_c/windows/syswow64/kernel32.dll''))) (\<lambda>has_wow64.
       if old_proton_ver = ''3.7'' \<and> old_prefix_ver = ''1'' \<and> \<not> has_wow64 then
         io_seq (log ''Detected broken 64-bit-only installation, re-creating prefix.'')
                (io_update (\<lambda>fs. fs_rmtree fs (prefix_dir c)))
       else
         io_seq (patch_dotnet c)
        (io_seq (io_bind (io_lift (needs_xinput_patch old_proton_maj old_proton_min old_prefix_ver))
                   (\<lambda>b. if b then patch_xinput c else io_return ()))
        (io_seq (io_bind (io_lift (needs_dde_patch old_proton_maj old_proton_min old_prefix_ver))
                   (\<lambda>b. if b then patch_dde c rnd else io_return ()))
                (for_each (stale_builtins c) remove_stale_builtin))))"

text \<open>Lines 394-501, the body of the \<^verbatim>\<open>try\<close>, for any current tag.\<close>

definition upgrade_body :: "string \<Rightarrow> Proton \<Rightarrow> CompatData \<Rightarrow> nat \<Rightarrow> string \<Rightarrow> unit io" where
  "upgrade_body current g c rnd old_ver =
     io_bind (io_lift (unpack2 (split_on CHR ''-'' old_ver))) (\<lambda>(old_proton_ver, old_prefix_ver).
     io_bind (io_lift (unpack2 (split_on CHR ''.'' old_proton_ver))) (\<lambda>(old_proton_maj, old_proton_min).
     io_bind (io_lift (unpack2 (split_on CHR ''-'' current))) (\<lambda>(new_proton_ver, new_prefix_ver).
     io_bind (io_lift (unpack2 (split_on CHR ''.'' new_proton_ver))) (\<lambda>(new_proton_maj, new_proton_min).
     io_bind (io_lift (is_downgrade new_proton_maj new_proton_min old_proton_maj old_proton_min))
       (\<lambda>downgrade.
         if downgrade then remove_newer_prefix g c old_proton_ver
         else forward_patches c rnd old_proton_ver old_prefix_ver old_proton_maj old_proton_min)))))"

definition py_str :: "string option \<Rightarrow> string" where
  "py_str v = (case v of None \<Rightarrow> ''None'' | Some s \<Rightarrow> s)"

text \<open>\<open>upgrade_pfx_from current\<close> is the method with \<open>current\<close> for the constant
  \<^verbatim>\<open>CURRENT_PREFIX_VERSION\<close>; \<open>upgrade_pfx\<close> is the method of the script.\<close>

definition upgrade_pfx_from ::
  "string \<Rightarrow> Proton \<Rightarrow> CompatData \<Rightarrow> nat \<Rightarrow> string option \<Rightarrow> unit io" where
  "upgrade_pfx_from current g c rnd old_ver =
     (if old_ver = Some current then io_return ()
      else
        io_seq (log (''Upgrading prefix from '' @ py_str old_ver @ '' to '' @ current @
                     '' ('' @ base_dir c @ '')''))
          (case old_ver of
             None \<Rightarrow> io_return ()
           | Some v \<Rightarrow>
               if \<not> py_in ''-'' v then log invalid_version_msg
               else io_try (upgrade_body current g c rnd v)
                      (\<lambda>e. if e = ValueError then log invalid_version_msg else io_raise e)))"

definition upgrade_pfx :: "Proton \<Rightarrow> CompatData \<Rightarrow> nat \<Rightarrow> string option \<Rightarrow> unit io" where
  "upgrade_pfx = upgrade_pfx_from CURRENT_PREFIX_VERSION"

subsection \<open>\<^verbatim>\<open>pfx_copy\<close>, \<^verbatim>\<open>copy_pfx\<close> and \<^verbatim>\<open>update_builtin_libs\<close>\<close>

definition pfx_copy :: "string \<Rightarrow> string \<Rightarrow> bool \<Rightarrow> unit io" where
  "pfx_copy src dst dll_copy =
     io_bind (io_read (\<lambda>fs. islink fs src)) (\<lambda>src_islink.
       if src_islink then
         io_bind (io_get (\<lambda>fs. readlink fs src)) (\<lambda>contents.
           if dll_copy then try_copyfile src dst
           else io_update (\<lambda>fs. fs_symlink fs
                  (if is_builtin_target contents
                   then normpath (path_join (dirname src) contents) else contents) dst))
       else try_copyfile src dst)"

text \<open>\<^verbatim>\<open>fnmatch.fnmatch(name, pattern)\<close> for patterns of literal characters, \<^verbatim>\<open>*\<close> and
  \<^verbatim>\<open>?\<close>; bracket expressions are not modelled.\<close>

fun fnmatch :: "string \<Rightarrow> string \<Rightarrow> bool" where
  "fnmatch [] [] = True"
| "fnmatch (c # cs) [] = False"
| "fnmatch [] (p # ps) = (p = CHR ''*'' \<and> fnmatch [] ps)"
| "fnmatch (c # cs) (p # ps) =
     (if p = CHR ''*'' then fnmatch (c # cs) ps \<or> fnmatch cs (p # ps)
      else (p = CHR ''?'' \<or> p = c) \<and> fnmatch cs ps)"

text \<open>Lines 525-528 and 552-555: the relative name and the destination of a walked
  directory.\<close>

definition rel_dir_of :: "Proton \<Rightarrow> string \<Rightarrow> string" where
  "rel_dir_of g src_dir =
     (let rel_dir = lstrip_chars ''/'' (replace1 src_dir (default_pfx_dir g) [])
      in if length rel_dir > 0 then rel_dir @ ''/'' else rel_dir)"

definition dst_dir_of :: "Proton \<Rightarrow> CompatData \<Rightarrow> string \<Rightarrow> string" where
  "dst_dir_of g c src_dir = replace1 src_dir (default_pfx_dir g) (prefix_dir c)"

text \<open>Lines 529-531 and 556-558: a directory that is missing in the prefix is created,
  and then its record is written to the open manifest.\<close>

definition create_tracked_dir :: "Proton \<Rightarrow> CompatData \<Rightarrow> string \<Rightarrow> unit io" where
  "create_tracked_dir g c src_dir =
     io_bind (io_read (\<lambda>fs. lexists fs (dst_dir_of g c src_dir))) (\<lambda>there.
       if \<not> there then
         io_seq (io_update (\<lambda>fs. fs_makedirs fs (dst_dir_of g c src_dir) False))
                (handle_write (rel_dir_of g src_dir @ [NL]))
       else io_return ())"

definition copy_pfx_dir :: "string \<Rightarrow> string \<Rightarrow> string \<Rightarrow> unit io" where
  "copy_pfx_dir src_dir dst_dir dir' =
     io_bind (io_read (\<lambda>fs. islink fs (path_join src_dir dir') \<and>
                             \<not> path_exists fs (path_join dst_dir dir'))) (\<lambda>b.
       if b then pfx_copy (path_join src_dir dir') (path_join dst_dir dir') False
       else io_return ())"

definition copy_pfx_file :: "string \<Rightarrow> string \<Rightarrow> string \<Rightarrow> string \<Rightarrow> unit io" where
  "copy_pfx_file rel_dir src_dir dst_dir file' =
     io_bind (io_read (\<lambda>fs. path_exists fs (path_join dst_dir file'))) (\<lambda>there.
       if \<not> there then
         io_seq (pfx_copy (path_join src_dir file') (path_join dst_dir file') False)
                (handle_write (rel_dir @ file' @ [NL]))
       else io_return ())"

definition copy_pfx :: "Proton \<Rightarrow> CompatData \<Rightarrow> unit io" where
  "copy_pfx g c =
     with_open_write (tracked_files_file c) True
       (io_bind (io_read (\<lambda>fs. os_walk fs (default_pfx_dir g))) (\<lambda>walk.
          for_each walk (\<lambda>(src_dir, dirs, files).
            io_seq (create_tracked_dir g c src_dir)
           (io_seq (for_each dirs (copy_pfx_dir src_dir (dst_dir_of g c src_dir)))
                   (for_each files
                      (copy_pfx_file (rel_dir_of g src_dir) src_dir (dst_dir_of g c src_dir)))))))"

text \<open>Lines 559-576, the body of the loop over the files of a walked directory.\<close>

definition update_builtin_file ::
  "string list \<Rightarrow> string list \<Rightarrow> string \<Rightarrow> string \<Rightarrow> string \<Rightarrow> string \<Rightarrow> unit io" where
  "update_builtin_file dll_copy_patterns prev_tracked_files rel_dir src_dir dst_dir file' =
     (let src_file = path_join src_dir file';
          dst_file = path_join dst_dir file'
      in
      io_bind (io_get (\<lambda>fs. file_is_wine_builtin_dll fs src_file)) (\<lambda>src_builtin.
        if \<not> src_builtin then io_return ()
        else
          io_bind (io_get (\<lambda>fs. file_is_wine_builtin_dll fs dst_file)) (\<lambda>dst_builtin.
          io_bind (io_read (\<lambda>fs. lexists fs dst_file)) (\<lambda>dst_there.
            if \<not> dst_builtin \<and> dst_there then io_return ()
            else
              io_seq (if dst_builtin then io_update (\<lambda>fs. fs_remove fs dst_file)
                      else io_update (\<lambda>fs. fs_makedirs fs dst_dir True))
             (io_seq (pfx_copy src_file dst_file (list_ex (fnmatch file') dll_copy_patterns))
                     (if rel_dir @ file' \<notin> set prev_tracked_files
                      then handle_write (rel_dir @ file' @ [NL])
                      else io_return ()))))))"

definition update_builtin_walk ::
  "Proton \<Rightarrow> CompatData \<Rightarrow> string list \<Rightarrow> string list \<Rightarrow>
   (string \<times> string list \<times> string list) list \<Rightarrow> unit io" where
  "update_builtin_walk g c dll_copy_patterns prev_tracked_files walk =
     for_each walk (\<lambda>(src_dir, dirs, files).
       io_seq (create_tracked_dir g c src_dir)
              (for_each files
                 (update_builtin_file dll_copy_patterns prev_tracked_files
                    (rel_dir_of g src_dir) src_dir (dst_dir_of g c src_dir))))"

definition update_builtin_libs :: "Proton \<Rightarrow> CompatData \<Rightarrow> string \<Rightarrow> unit io" where
  "update_builtin_libs g c dll_copy_patterns =
     io_bind (io_get (\<lambda>fs. open_read fs (tracked_files_file c))) (\<lambda>tracked_files.
       with_open_write (tracked_files_file c) False
         (io_bind (io_read (\<lambda>fs. os_walk fs (default_pfx_dir g))) (\<lambda>walk.
            update_builtin_walk g c (split_on CHR '','' dll_copy_patterns)
              (map py_strip (file_lines tracked_files)) walk)))"

subsection \<open>\<^verbatim>\<open>merge_user_dir\<close> and \<^verbatim>\<open>migrate_user_paths\<close>\<close>

text \<open>\<^verbatim>\<open>extant_dirs += dst_dir\<close> extends the list by the elements of the string, its
  characters, each a string of length one.\<close>

definition chars_of :: "string \<Rightarrow> string list" where
  "chars_of s = map (\<lambda>ch. [ch]) s"

definition merge_entry :: "string \<Rightarrow> string \<Rightarrow> string \<Rightarrow> unit io" where
  "merge_entry src_dir dst_dir name =
     io_bind (io_read (\<lambda>fs. path_exists fs (path_join dst_dir name))) (\<lambda>there.
       if \<not> there
       then try_copy (path_join src_dir name) (path_join dst_dir name) True True False False
       else io_return ())"

definition merge_link_dir :: "string \<Rightarrow> string \<Rightarrow> string \<Rightarrow> unit io" where
  "merge_link_dir src_dir dst_dir dir' =
     io_bind (io_read (\<lambda>fs. islink fs (path_join src_dir dir'))) (\<lambda>lnk.
       if lnk then merge_entry src_dir dst_dir dir' else io_return ())"

definition merge_walked ::
  "string \<Rightarrow> string \<Rightarrow> string \<times> string list \<times> string list \<Rightarrow> string list \<Rightarrow> string list io" where
  "merge_walked src dst entry extant_dirs =
     (case entry of (src_dir, dirs, files) \<Rightarrow>
        let dst_dir = replace1 src_dir src dst in
        if list_ex (\<lambda>dir'. py_in dir' dst_dir) extant_dirs then io_return extant_dirs
        else
          io_bind (io_bind (io_read (\<lambda>fs. path_exists fs dst_dir)) (\<lambda>there.
                     if \<not> there then io_return True
                     else io_get (\<lambda>fs. samefile fs dst_dir dst))) (\<lambda>merge_here.
            if merge_here then
              io_seq (makedirs dst_dir)
             (io_seq (for_each dirs (merge_link_dir src_dir dst_dir))
             (io_seq (for_each files (merge_entry src_dir dst_dir))
                     (io_return extant_dirs)))
            else io_return (extant_dirs @ chars_of dst_dir)))"

definition merge_user_dir :: "string \<Rightarrow> string \<Rightarrow> unit io" where
  "merge_user_dir src dst =
     io_bind (io_read (\<lambda>fs. os_walk fs src)) (\<lambda>walk.
     io_bind (for_fold walk [] (merge_walked src dst)) (\<lambda>extant_dirs. io_return ()))"

definition user_path_table :: "CompatData \<Rightarrow> (string \<times> string \<times> string) list" where
  "user_path_table c =
     [(''drive_c/users/steamuser/Local Settings/Application Data'',
       prefix_dir c @ ''drive_c/users/steamuser/AppData/Local'',
       ''../AppData/Local''),
      (''drive_c/users/steamuser/Application Data'',
       prefix_dir c @ ''drive_c/users/steamuser/AppData/Roaming'',
       ''./AppData/Roaming''),
      (''drive_c/users/steamuser/My Documents'',
       prefix_dir c @ ''drive_c/users/steamuser/Documents'',
       ''./Documents'')]"

definition break_link_loop :: "string \<Rightarrow> string \<Rightarrow> unit io" where
  "break_link_loop old new =
     io_bind (io_read (\<lambda>fs. lexists fs new \<and> islink fs new)) (\<lambda>lnk.
       if \<not> lnk then io_return ()
       else io_bind (io_get (\<lambda>fs. readlink fs new)) (\<lambda>target.
              if endswith target old then io_update (\<lambda>fs. fs_remove fs new)
              else io_return ()))"

definition redirect_old_path :: "string \<Rightarrow> string \<Rightarrow> unit io" where
  "redirect_old_path old link =
     io_bind (io_read (\<lambda>fs. lexists fs old)) (\<lambda>there.
       if \<not> there then
         io_seq (makedirs (dirname old)) (io_update (\<lambda>fs. fs_symlink fs link old))
       else
         io_bind (io_read (\<lambda>fs. islink fs old)) (\<lambda>lnk.
           if \<not> lnk then io_return ()
           else io_bind (io_get (\<lambda>fs. readlink fs old)) (\<lambda>target.
                  if target \<noteq> link
                  then io_seq (io_update (\<lambda>fs. fs_remove fs old))
                              (io_update (\<lambda>fs. fs_symlink fs link old))
                  else io_return ())))"

definition migrate_user_path :: "CompatData \<Rightarrow> string \<times> string \<times> string \<Rightarrow> unit io" where
  "migrate_user_path c entry =
     (case entry of (old_rel, new, link) \<Rightarrow>
        io_seq (break_link_loop old_rel new)
          (let old = prefix_dir c @ old_rel in
           io_seq (io_bind (io_read (\<lambda>fs. lexists fs old \<and> \<not> islink fs old)) (\<lambda>real.
                     if real then
                       io_seq (merge_user_dir old new)
                              (io_update (\<lambda>fs. fs_rename fs old (old @ '' BACKUP'')))
                     else io_return ()))
                  (redirect_old_path old link)))"

definition migrate_user_paths :: "CompatData \<Rightarrow> unit io" where
  "migrate_user_paths c = for_each (user_path_table c) (migrate_user_path c)"

section \<open>The specification's notions, and the inputs of the examples\<close>

text \<open>The version tag of the specification: \<^verbatim>\<open>major.minor-revision\<close> with three integer
  components.  A tag is malformed when it does not parse as that.\<close>

definition parse_tag :: "string \<Rightarrow> exn + (int \<times> int \<times> int)" where
  "parse_tag tag =
     ebind (unpack2 (split_on CHR ''-'' tag)) (\<lambda>(ver, revision).
     ebind (unpack2 (split_on CHR ''.'' ver)) (\<lambda>(major, minor).
     ebind (py_int major) (\<lambda>a.
     ebind (py_int minor) (\<lambda>b.
     ebind (py_int revision) (\<lambda>r. Inr (a, b, r))))))"

definition tag_well_formed :: "string \<Rightarrow> bool" where
  "tag_well_formed tag \<longleftrightarrow> (case parse_tag tag of Inl e \<Rightarrow> False | Inr t \<Rightarrow> True)"

text \<open>The two messages \<open>upgrade_pfx\<close> writes for a tag it cannot read.\<close>

definition upgrade_msg :: "CompatData \<Rightarrow> string \<Rightarrow> string" where
  "upgrade_msg c v =
     PFX @ ''Upgrading prefix from '' @ v @ '' to '' @ CURRENT_PREFIX_VERSION @
     '' ('' @ base_dir c @ '')'' @ [NL]"

definition invalid_version_line :: string where
  "invalid_version_line = PFX @ invalid_version_msg @ [NL]"

text \<open>A Proton installation at \<^verbatim>\<open>/p\<close> and the compatibility data of an application at
  \<^verbatim>\<open>/c\<close>.\<close>

definition ex_proton :: Proton where
  "ex_proton = Proton_init ''/p''"

definition ex_compat :: CompatData where
  "ex_compat = CompatData_init ''/c''"

definition on_disk :: "filesys \<Rightarrow> world" where
  "on_disk fs = \<lparr>disk = fs, stderr = [], wbuf = []\<rparr>"

text \<open>A file of 80 bytes that ends in the shorter of the two markers.\<close>

definition short_stub :: string where
  "short_stub = replicate 64 (CHR ''x'') @ ''Wine builtin DLL''"

definition short_stub_fs :: filesys where
  "short_stub_fs = [([''f''], File short_stub)]"

text \<open>A prefix that version 7.0-1 made, with one tracked file.\<close>

definition newer_prefix_fs :: filesys where
  "newer_prefix_fs =
     [([''c''], Dir),
      ([''c'', ''version''], File ''7.0-1\<newline>''),
      ([''c'', ''tracked_files''], File ''a.dll\<newline>''),
      ([''c'', ''pfx''], Dir),
      ([''c'', ''pfx'', ''a.dll''], File ''owned'')]"









text \<open>
  The scope of the statements about paths.  The model reads a path name lexically and
  follows a symbolic link only in the last component, so it agrees with the kernel on a
  path that is \<^emph>\<open>direct\<close>: no component is \<^verbatim>\<open>..\<close>; every directory on the way to it is a
  real directory (or the path is absent and no directory on the way is a symbolic link);
  and a name that ends in a slash or in \<^verbatim>\<open>/.\<close> names a directory or nothing.
\<close>

definition ancestors :: "path \<Rightarrow> path list" where
  "ancestors p = map (\<lambda>k. take k p) [1..<length p]"

definition is_link_node :: "node option \<Rightarrow> bool" where
  "is_link_node x \<longleftrightarrow> (case x of Some (Link t) \<Rightarrow> True | _ \<Rightarrow> False)"

definition direct_path :: "filesys \<Rightarrow> string \<Rightarrow> bool" where
  "direct_path fs s \<longleftrightarrow>
     ''..'' \<notin> set (split_on CHR ''/'' s) \<and>
     (list_all (\<lambda>a. node_at fs a = Some Dir) (ancestors (path_of s)) \<or>
      (node_at fs (path_of s) = None \<and>
       list_all (\<lambda>a. \<not> is_link_node (node_at fs a)) (ancestors (path_of s)))) \<and>
     (last (split_on CHR ''/'' s) \<in> {[], ''.''} \<longrightarrow>
        node_at fs (path_of s) = None \<or> node_at fs (path_of s) = Some Dir)"






text \<open>A template with a directory \<^verbatim>\<open>d\<close> of two builtin libraries, and a prefix whose
  manifest records \<^verbatim>\<open>d/\<close>: in the first the prefix has \<^verbatim>\<open>d\<close> with a file of the user in
  the place of one library; in the second \<^verbatim>\<open>d\<close> has been deleted from the prefix.\<close>

definition template_fs :: filesys where
  "template_fs =
     [([''p''], Dir),
      ([''p'', ''files''], Dir),
      ([''p'', ''files'', ''share''], Dir),
      ([''p'', ''files'', ''share'', ''default_pfx''], Dir),
      ([''p'', ''files'', ''share'', ''default_pfx'', ''d''], Dir),
      ([''p'', ''files'', ''share'', ''default_pfx'', ''d'', ''k.dll''], File short_stub),
      ([''p'', ''files'', ''share'', ''default_pfx'', ''d'', ''u.dll''], File short_stub),
      ([''c''], Dir),
      ([''c'', ''tracked_files''], File ''d/\<newline>''),
      ([''c'', ''pfx''], Dir)]"

definition sync_fs :: filesys where
  "sync_fs = template_fs @
     [([''c'', ''pfx'', ''d''], Dir),
      ([''c'', ''pfx'', ''d'', ''u.dll''], File ''user'')]"


text \<open>A directory is \<^emph>\<open>plain\<close> when its path is direct and names a directory or nothing.\<close>

definition plain_dir :: "filesys \<Rightarrow> string \<Rightarrow> bool" where
  "plain_dir fs s \<longleftrightarrow>
     direct_path fs s \<and> (node_at fs (path_of s) = None \<or> node_at fs (path_of s) = Some Dir)"

text \<open>A prefix whose legacy \<^verbatim>\<open>My Documents\<close> is a real directory with the save directories
  \<^verbatim>\<open>a\<close> and \<^verbatim>\<open>b\<close> of two games, and whose \<^verbatim>\<open>Documents\<close> has a directory \<^verbatim>\<open>a\<close> already.\<close>

definition legacy_docs_fs :: filesys where
  "legacy_docs_fs =
     [([''c''], Dir),
      ([''c'', ''pfx''], Dir),
      ([''c'', ''pfx'', ''drive_c''], Dir),
      ([''c'', ''pfx'', ''drive_c'', ''users''], Dir),
      ([''c'', ''pfx'', ''drive_c'', ''users'', ''steamuser''], Dir),
      ([''c'', ''pfx'', ''drive_c'', ''users'', ''steamuser'', ''My Documents''], Dir),
      ([''c'', ''pfx'', ''drive_c'', ''users'', ''steamuser'', ''My Documents'', ''a''], Dir),
      ([''c'', ''pfx'', ''drive_c'', ''users'', ''steamuser'', ''My Documents'', ''a'', ''x''],
         File ''save a''),
      ([''c'', ''pfx'', ''drive_c'', ''users'', ''steamuser'', ''My Documents'', ''b''], Dir),
      ([''c'', ''pfx'', ''drive_c'', ''users'', ''steamuser'', ''My Documents'', ''b'', ''y''],
         File ''save b''),
      ([''c'', ''pfx'', ''drive_c'', ''users'', ''steamuser'', ''Documents''], Dir),
      ([''c'', ''pfx'', ''drive_c'', ''users'', ''steamuser'', ''Documents'', ''a''], Dir)]"

text \<open>The names a directory can hold: not empty, no slash, neither \<^verbatim>\<open>.\<close> nor \<^verbatim>\<open>..\<close>.  A
  table is well formed when every component of every path in it is such a name.\<close>

definition valid_name :: "string \<Rightarrow> bool" where
  "valid_name s \<longleftrightarrow> s \<noteq> [] \<and> CHR ''/'' \<notin> set s \<and> s \<noteq> ''.'' \<and> s \<noteq> ''..''"

definition wf_fs :: "filesys \<Rightarrow> bool" where
  "wf_fs fs \<longleftrightarrow> list_all (\<lambda>(p, n). list_all valid_name p) fs"

text \<open>A node that the classifier calls real whatever else the file system holds: a
  directory, or a regular file without a marker at offset 0x40.\<close>

definition real_node :: "node \<Rightarrow> bool" where
  "real_node n \<longleftrightarrow>
     (case n of
        File content \<Rightarrow> \<not> list_ex (startswith (seek_read 0x40 20 content)) builtin_tags
      | Link t \<Rightarrow> False
      | Dir \<Rightarrow> True)"

text \<open>For the proofs about the migration of the user paths: a step \<^emph>\<open>keeps\<close> what is outside
  some trees when it leaves the table well formed and every node that is below none of
  their roots is after the step what it was before.\<close>

definition keeps :: "path list \<Rightarrow> filesys \<Rightarrow> filesys \<Rightarrow> bool" where
  "keeps roots fs fs' \<longleftrightarrow>
     (wf_fs fs \<longrightarrow> wf_fs fs') \<and>
     (\<forall>q n. (\<forall>r \<in> set roots. \<not> startswith q r) \<longrightarrow> node_at fs q = Some n \<longrightarrow>
            node_at fs' q = Some n)"


section \<open>Facts about strings, paths and the file system\<close>

lemma startswith_length: "startswith s t \<Longrightarrow> length t \<le> length s"
  by (induction s t rule: startswith.induct) auto

lemma open_read_OSError: "open_read fs p = Inl e \<Longrightarrow> is_OSError e"
  by (auto simp: open_read_def is_OSError_def split: option.splits node.splits)

lemma islink_readlink: "islink fs p \<Longrightarrow> \<exists>t. readlink fs p = Inr t"
  by (auto simp: islink_def readlink_def split: option.splits node.splits)

lemma builtin_tags_length: "t \<in> set builtin_tags \<Longrightarrow> 16 \<le> length t"
  by (auto simp: builtin_tags_def)

subsection \<open>The monad, applied to a state\<close>

named_theorems io_simps

lemma io_return_apply [io_simps]: "io_return x w = (Inr x, w)"
  by (simp add: io_return_def)
lemma io_raise_apply [io_simps]: "io_raise e w = (Inl e, w)"
  by (simp add: io_raise_def)
lemma io_bind_apply [io_simps]:
  "io_bind m f w = (case m w of (Inl e, w') \<Rightarrow> (Inl e, w') | (Inr x, w') \<Rightarrow> f x w')"
  by (simp add: io_bind_def)
lemma io_seq_apply [io_simps]:
  "io_seq m k w = (case m w of (Inl e, w') \<Rightarrow> (Inl e, w') | (Inr x, w') \<Rightarrow> k w')"
  by (simp add: io_seq_def io_bind_def)
lemma io_try_apply [io_simps]:
  "io_try m h w = (case m w of (Inl e, w') \<Rightarrow> h e w' | (Inr x, w') \<Rightarrow> (Inr x, w'))"
  by (simp add: io_try_def)
lemma io_read_apply [io_simps]: "io_read f w = (Inr (f (disk w)), w)"
  by (simp add: io_read_def)
lemma io_get_apply [io_simps]: "io_get f w = (f (disk w), w)"
  by (simp add: io_get_def)
lemma io_lift_apply [io_simps]: "io_lift r w = (r, w)"
  by (simp add: io_lift_def)
lemma io_update_apply [io_simps]:
  "io_update f w = (case f (disk w) of Inl e \<Rightarrow> (Inl e, w) | Inr fs' \<Rightarrow> (Inr (), w\<lparr>disk := fs'\<rparr>))"
  by (simp add: io_update_def)
lemma log_apply [io_simps]: "log msg w = (Inr (), w\<lparr>stderr := stderr w @ [PFX @ msg @ [NL]]\<rparr>)"
  by (simp add: log_def)
lemma handle_write_apply [io_simps]: "handle_write txt w = (Inr (), w\<lparr>wbuf := wbuf w @ txt\<rparr>)"
  by (simp add: handle_write_def)

lemma node_at_delete:
  "node_at (AList.delete p fs) q = (if q = p \<and> q \<noteq> [] then None else node_at fs q)"
  by (simp add: node_at_def delete_conv')

lemma node_at_update:
  "node_at (AList.update p n fs) q = (if q = p \<and> q \<noteq> [] then Some n else node_at fs q)"
  by (simp add: node_at_def update_conv')

lemma lstat_node_at: "s \<noteq> [] \<Longrightarrow> lstat fs s = node_at fs (path_of s)"
  by (simp add: lstat_def)


lemma stat_of_lstat_File: "lstat fs s = Some (File x) \<Longrightarrow> stat fs s = Some (File x)"
  by (auto simp: lstat_def stat_def split: if_splits)

lemma stat_of_lstat_Dir: "lstat fs s = Some Dir \<Longrightarrow> stat fs s = Some Dir"
  by (auto simp: lstat_def stat_def split: if_splits)

lemma stat_of_lstat_None: "lstat fs s = None \<Longrightarrow> stat fs s = None"
  by (auto simp: lstat_def stat_def split: if_splits)

lemma follow_result_not_link:
  "follow fs k p = Some q \<Longrightarrow> \<exists>n. node_at fs q = Some n \<and> (\<forall>t. n \<noteq> Link t)"
proof (induction fs k p rule: follow.induct)
  case (1 fs n p)
  then show ?case
    by (cases "node_at fs p") (auto split: node.splits if_splits)
qed

lemma stat_not_link: "stat fs s \<noteq> Some (Link t)"
  using follow_result_not_link[of fs 40 "path_of s"]
  by (auto simp: stat_def split: option.splits)

lemma listdir_empty_iff:
  "listdir fs p = [] \<longleftrightarrow> (\<forall>q. q \<noteq> [] \<longrightarrow> butlast q = p \<longrightarrow> map_of fs q = None)"
proof -
  have "listdir fs p = [] \<longleftrightarrow> (\<forall>(q, n) \<in> set fs. \<not> (q \<noteq> [] \<and> butlast q = p))"
    by (simp add: listdir_def filter_empty_conv split_def)
  also have "\<dots> \<longleftrightarrow> (\<forall>q. q \<noteq> [] \<longrightarrow> butlast q = p \<longrightarrow> q \<notin> fst ` set fs)"
    by force
  also have "\<dots> \<longleftrightarrow> (\<forall>q. q \<noteq> [] \<longrightarrow> butlast q = p \<longrightarrow> map_of fs q = None)"
    by (simp add: map_of_eq_None_iff)
  finally show ?thesis .
qed

lemma listdir_empty_node_at:
  "listdir fs p = [] \<longleftrightarrow> (\<forall>q. q \<noteq> [] \<longrightarrow> butlast q = p \<longrightarrow> node_at fs q = None)"
  by (auto simp: listdir_empty_iff node_at_def)

section \<open>The stub classifier (C10)\<close>

lemma file_is_wine_builtin_dll_returns: "\<exists>b. file_is_wine_builtin_dll fs p = Inr b"
  using islink_readlink[of fs p] open_read_OSError[of fs p]
  by (auto simp: file_is_wine_builtin_dll_def split: sum.splits)

lemma short_file_no_tag:
  assumes "length content < 0x40 + 16"
  shows "\<not> list_ex (startswith (seek_read 0x40 20 content)) builtin_tags"
proof
  assume "list_ex (startswith (seek_read 0x40 20 content)) builtin_tags"
  then obtain t where t: "t \<in> set builtin_tags" "startswith (seek_read 0x40 20 content) t"
    by (auto simp: list_ex_iff)
  from startswith_length[OF t(2)] builtin_tags_length[OF t(1)]
  have "16 \<le> length (seek_read 0x40 20 content)" by simp
  with assms show False by (simp add: seek_read_def)
qed

text \<open>
  C10, as the claim states it, fails for a file that is too short to carry 20 bytes at
  offset 0x40 and carries the 16 bytes of the shorter marker there: reading past the end
  raises nothing, the 16 bytes read begin with the marker, and the classifier returns
  \<open>True\<close>.
\<close>

theorem short_file_classified_stub:
  "length short_stub < 0x40 + 20 \<and> \<not> islink short_stub_fs ''/f'' \<and>
   file_is_wine_builtin_dll short_stub_fs ''/f'' = Inr True"
  by (simp add: short_stub_def short_stub_fs_def file_is_wine_builtin_dll_def islink_def lstat_def
      path_of_def walk_comps_def node_at_def path_exists_def stat_def open_read_def seek_read_def
      builtin_tags_def)

text \<open>
  C10, amended: \<open>file_is_wine_builtin_dll\<close> returns a boolean for every path and never
  raises.  For a path that is not a symbolic link it returns \<open>False\<close> when the path does
  not exist, when opening it fails, and when the file has fewer than 0x40 + 16 bytes, too
  few for the shorter marker.  It returns \<open>True\<close> only for a symbolic link whose target
  lies in one of the two builtin directories, or for a file whose bytes from offset 0x40,
  at most 20 of them, begin with one of the two markers.
\<close>

theorem file_is_wine_builtin_dll_total:
  "(\<exists>b. file_is_wine_builtin_dll fs p = Inr b) \<and>
   (\<not> islink fs p \<longrightarrow> \<not> path_exists fs p \<longrightarrow> file_is_wine_builtin_dll fs p = Inr False) \<and>
   (\<not> islink fs p \<longrightarrow> (\<exists>e. open_read fs p = Inl e) \<longrightarrow>
      file_is_wine_builtin_dll fs p = Inr False) \<and>
   (\<not> islink fs p \<longrightarrow> (\<exists>content. open_read fs p = Inr content \<and> length content < 0x40 + 16) \<longrightarrow>
      file_is_wine_builtin_dll fs p = Inr False) \<and>
   (file_is_wine_builtin_dll fs p = Inr True \<longrightarrow>
      (islink fs p \<and> (\<exists>t. readlink fs p = Inr t \<and> is_builtin_target t)) \<or>
      (\<exists>content. open_read fs p = Inr content \<and>
         list_ex (startswith (seek_read 0x40 20 content)) builtin_tags))"
proof (intro conjI impI)
  show "\<exists>b. file_is_wine_builtin_dll fs p = Inr b"
    by (rule file_is_wine_builtin_dll_returns)
next
  assume "\<not> islink fs p" "\<not> path_exists fs p"
  then show "file_is_wine_builtin_dll fs p = Inr False"
    by (simp add: file_is_wine_builtin_dll_def)
next
  assume "\<not> islink fs p" "\<exists>e. open_read fs p = Inl e"
  then show "file_is_wine_builtin_dll fs p = Inr False"
    using open_read_OSError[of fs p]
    by (auto simp: file_is_wine_builtin_dll_def)
next
  assume "\<not> islink fs p"
    and "\<exists>content. open_read fs p = Inr content \<and> length content < 0x40 + 16"
  then show "file_is_wine_builtin_dll fs p = Inr False"
    using short_file_no_tag by (auto simp: file_is_wine_builtin_dll_def)
next
  assume "file_is_wine_builtin_dll fs p = Inr True"
  then show "(islink fs p \<and> (\<exists>t. readlink fs p = Inr t \<and> is_builtin_target t)) \<or>
      (\<exists>content. open_read fs p = Inr content \<and>
         list_ex (startswith (seek_read 0x40 20 content)) builtin_tags)"
    by (auto simp: file_is_wine_builtin_dll_def split: sum.splits if_splits)
qed

theorem file_is_wine_builtin_dll_total_witness:
  "\<not> islink [([''d''], Dir)] ''/d'' \<and> open_read [([''d''], Dir)] ''/d'' = Inl IsADirectoryError \<and>
   \<not> islink [([''d''], Dir)] ''/nothing'' \<and> \<not> path_exists [([''d''], Dir)] ''/nothing'' \<and>
   \<not> islink [([''t''], File ''tiny'')] ''/t'' \<and> open_read [([''t''], File ''tiny'')] ''/t'' = Inr ''tiny'' \<and>
   file_is_wine_builtin_dll [([''d''], Dir)] ''/d'' = Inr False \<and>
   file_is_wine_builtin_dll [([''d''], Dir)] ''/nothing'' = Inr False \<and>
   file_is_wine_builtin_dll [([''t''], File ''tiny'')] ''/t'' = Inr False \<and>
   file_is_wine_builtin_dll short_stub_fs ''/f'' = Inr True \<and>
   open_read short_stub_fs ''/f'' = Inr short_stub \<and>
   list_ex (startswith (seek_read 0x40 20 short_stub)) builtin_tags"
proof -
  have d: "\<not> islink [([''d''], Dir)] ''/d''" "open_read [([''d''], Dir)] ''/d'' = Inl IsADirectoryError"
    and n: "\<not> islink [([''d''], Dir)] ''/nothing''" "\<not> path_exists [([''d''], Dir)] ''/nothing''"
    and t: "\<not> islink [([''t''], File ''tiny'')] ''/t''"
      "open_read [([''t''], File ''tiny'')] ''/t'' = Inr ''tiny''"
    by (simp_all add: islink_def lstat_def path_of_def walk_comps_def node_at_def open_read_def
        stat_def path_exists_def)
  have s: "file_is_wine_builtin_dll short_stub_fs ''/f'' = Inr True"
    "\<not> islink short_stub_fs ''/f''"
    by (simp_all add: short_stub_def short_stub_fs_def file_is_wine_builtin_dll_def islink_def
        lstat_def path_of_def walk_comps_def node_at_def path_exists_def stat_def open_read_def
        seek_read_def builtin_tags_def)
  from file_is_wine_builtin_dll_total[of "[([''d''], Dir)]" "''/d''"] d
  have 1: "file_is_wine_builtin_dll [([''d''], Dir)] ''/d'' = Inr False" by blast
  from file_is_wine_builtin_dll_total[of "[([''d''], Dir)]" "''/nothing''"] n
  have 2: "file_is_wine_builtin_dll [([''d''], Dir)] ''/nothing'' = Inr False" by blast
  from file_is_wine_builtin_dll_total[of "[([''t''], File ''tiny'')]" "''/t''"] t
  have 3: "file_is_wine_builtin_dll [([''t''], File ''tiny'')] ''/t'' = Inr False" by auto
  have o: "open_read short_stub_fs ''/f'' = Inr short_stub"
    by (simp add: short_stub_fs_def open_read_def stat_def path_of_def walk_comps_def node_at_def)
  from file_is_wine_builtin_dll_total[of short_stub_fs "''/f''"] s o
  have 4: "list_ex (startswith (seek_read 0x40 20 short_stub)) builtin_tags" by auto
  from d n t s o 1 2 3 4 show ?thesis by blast
qed

section \<open>The version state machine (C1, C5)\<close>

lemma unpack2_error: "unpack2 xs = Inl e \<Longrightarrow> e = ValueError"
  by (auto simp: unpack2_def split: list.splits)

text \<open>The current tag of the script has two hyphens, so line 397 cannot unpack it.\<close>

lemma unpack2_current: "unpack2 (split_on CHR ''-'' CURRENT_PREFIX_VERSION) = Inl ValueError"
  by (simp add: CURRENT_PREFIX_VERSION_def unpack2_def)

lemma upgrade_body_current:
  "upgrade_body CURRENT_PREFIX_VERSION g c rnd v w = (Inl ValueError, w)"
proof (cases "unpack2 (split_on CHR ''-'' v)")
  case (Inl e)
  then show ?thesis
    using unpack2_error[OF Inl] by (simp add: upgrade_body_def io_bind_def io_lift_def)
next
  case outer: (Inr ab)
  obtain a b where ab: "ab = (a, b)" by (cases ab)
  show ?thesis
  proof (cases "unpack2 (split_on CHR ''.'' a)")
    case (Inl e)
    then show ?thesis
      using unpack2_error[OF Inl] outer ab by (simp add: upgrade_body_def io_bind_def io_lift_def)
  next
    case (Inr cd)
    obtain c' d where cd: "cd = (c', d)" by (cases cd)
    show ?thesis
      using outer ab Inr cd unpack2_current
      by (simp add: upgrade_body_def io_bind_def io_lift_def)
  qed
qed

lemma upgrade_pfx_other_tag:
  "v \<noteq> CURRENT_PREFIX_VERSION \<Longrightarrow>
   upgrade_pfx g c rnd (Some v) w =
     (Inr (), w\<lparr>stderr := stderr w @ [upgrade_msg c v, invalid_version_line]\<rparr>)"
  by (simp add: upgrade_pfx_def upgrade_pfx_from_def io_seq_def io_bind_def log_def io_try_def
      upgrade_body_current py_str_def upgrade_msg_def invalid_version_line_def)

lemma upgrade_pfx_same_tag:
  "upgrade_pfx g c rnd (Some CURRENT_PREFIX_VERSION) w = (Inr (), w)"
  by (simp add: upgrade_pfx_def upgrade_pfx_from_def io_return_def)

text \<open>
  C1 (the code departs from the claim): for the recorded tag 7.0-1 the script does not
  wipe.  Unpacking its own current tag \<^verbatim>\<open>6.20-GE-1\<close> raises \<^verbatim>\<open>ValueError\<close> before the
  comparison of lines 400-402, the handler of line 503 logs and returns, and the prefix,
  its manifest and its version file are what they were.
\<close>

theorem upgrade_pfx_newer_tag_not_wiped:
  "upgrade_pfx ex_proton ex_compat 0 (Some ''7.0-1'') (on_disk newer_prefix_fs) =
     (Inr (), \<lparr>disk = newer_prefix_fs,
               stderr = [upgrade_msg ex_compat ''7.0-1'', invalid_version_line],
               wbuf = []\<rparr>)"
  by (simp add: upgrade_pfx_other_tag CURRENT_PREFIX_VERSION_def on_disk_def)

text \<open>With a current tag of the form the claim assumes, \<^verbatim>\<open>6.20-1\<close>, the same method
  does wipe that prefix: the tracked file, the manifest and the version file are gone.\<close>

lemma upgrade_pfx_from_wellformed_wipes:
  "upgrade_pfx_from ''6.20-1'' ex_proton ex_compat 0 (Some ''7.0-1'') (on_disk newer_prefix_fs) =
     (Inr (), \<lparr>disk = [([''c''], Dir), ([''c'', ''pfx''], Dir)],
               stderr = [PFX @ ''Upgrading prefix from 7.0-1 to 6.20-1 (/c/)'' @ [NL],
                         PFX @ ''Removing newer prefix'' @ [NL]],
               wbuf = []\<rparr>)"
  by code_simp

text \<open>
  C5, as the claim states it, fails for the tag \<^verbatim>\<open>6.20-GE-1\<close>: it does not parse as
  \<^verbatim>\<open>major.minor-revision\<close>, and because it is the current tag line 380 returns before
  anything is logged.
\<close>

theorem current_tag_malformed_not_logged:
  "\<not> tag_well_formed ''6.20-GE-1'' \<and>
   upgrade_pfx ex_proton ex_compat 0 (Some ''6.20-GE-1'') (on_disk newer_prefix_fs) =
     (Inr (), \<lparr>disk = newer_prefix_fs, stderr = [], wbuf = []\<rparr>)"
proof -
  have "\<not> tag_well_formed ''6.20-GE-1''"
    by (simp add: tag_well_formed_def parse_tag_def unpack2_def ebind_def)
  moreover have "upgrade_pfx ex_proton ex_compat 0 (Some ''6.20-GE-1'') (on_disk newer_prefix_fs) =
     (Inr (), \<lparr>disk = newer_prefix_fs, stderr = [], wbuf = []\<rparr>)"
    using upgrade_pfx_same_tag[of ex_proton ex_compat 0 "on_disk newer_prefix_fs"]
    by (simp add: CURRENT_PREFIX_VERSION_def on_disk_def)
  ultimately show ?thesis by blast
qed

text \<open>
  C5, amended: for every recorded tag that does not parse as \<^verbatim>\<open>major.minor-revision\<close>,
  \<open>upgrade_pfx\<close> returns without raising and without running a patch: the file system is
  unchanged.  It logs the condition (after the line that announces the upgrade) unless
  the tag is the current tag \<^verbatim>\<open>6.20-GE-1\<close> itself, for which it returns at once and logs
  nothing.
\<close>

theorem upgrade_pfx_malformed_tag:
  assumes "\<not> tag_well_formed v"
  shows "fst (upgrade_pfx g c rnd (Some v) w) = Inr () \<and>
         disk (snd (upgrade_pfx g c rnd (Some v) w)) = disk w \<and>
         stderr (snd (upgrade_pfx g c rnd (Some v) w)) =
           (if v = CURRENT_PREFIX_VERSION then stderr w
            else stderr w @ [upgrade_msg c v, invalid_version_line])"
proof (cases "v = CURRENT_PREFIX_VERSION")
  case True
  then show ?thesis by (simp add: upgrade_pfx_same_tag)
next
  case False
  then show ?thesis by (simp add: upgrade_pfx_other_tag)
qed

theorem upgrade_pfx_malformed_tag_witness:
  "\<not> tag_well_formed ''5.0'' \<and>
   fst (upgrade_pfx ex_proton ex_compat 0 (Some ''5.0'') (on_disk newer_prefix_fs)) = Inr () \<and>
   disk (snd (upgrade_pfx ex_proton ex_compat 0 (Some ''5.0'') (on_disk newer_prefix_fs))) =
     newer_prefix_fs \<and>
   stderr (snd (upgrade_pfx ex_proton ex_compat 0 (Some ''5.0'') (on_disk newer_prefix_fs))) =
     [upgrade_msg ex_compat ''5.0'', invalid_version_line]"
proof -
  have m: "\<not> tag_well_formed ''5.0''"
    by (simp add: tag_well_formed_def parse_tag_def unpack2_def ebind_def)
  show ?thesis
    using m upgrade_pfx_malformed_tag[OF m, of ex_proton ex_compat 0 "on_disk newer_prefix_fs"]
    by (simp add: CURRENT_PREFIX_VERSION_def on_disk_def)
qed

section \<open>Removing the tracked files (C4)\<close>

lemma prefix_dir_nonempty: "prefix_dir c @ s \<noteq> []"
  by (simp add: prefix_dir_def compat_path_def)





lemma split_on_nonempty: "split_on sep s \<noteq> []"
  by (induction s) (auto split: list.splits)

lemma split_on_append:
  "split_on sep (a @ b) =
     butlast (split_on sep a) @ [last (split_on sep a) @ hd (split_on sep b)] @ tl (split_on sep b)"
proof (induction a)
  case Nil
  then show ?case using split_on_nonempty[of sep b] by (cases "split_on sep b") auto
next
  case (Cons c a)
  then show ?case
    using split_on_nonempty[of sep a] split_on_nonempty[of sep "a @ b"]
    by (cases "split_on sep a"; cases "split_on sep (a @ b)") (auto split: list.splits if_splits)
qed

lemma split_on_no_sep: "sep \<notin> set b \<Longrightarrow> split_on sep b = [b]"
  by (induction b) auto

lemma walk_comps_snoc:
  "walk_comps base (xs @ [l]) =
     (if l = [] \<or> l = ''.'' then walk_comps base xs
      else if l = ''..'' then butlast (walk_comps base xs)
      else walk_comps base xs @ [l])"
  by (simp add: walk_comps_def)




lemma lexists_node_at: "s \<noteq> [] \<Longrightarrow> lexists fs s \<longleftrightarrow> node_at fs (path_of s) \<noteq> None"
  by (simp add: lexists_def lstat_def)

lemma lstat_prefix: "lstat fs (prefix_dir c @ s) = node_at fs (path_of (prefix_dir c @ s))"
  by (rule lstat_node_at) (rule prefix_dir_nonempty)

lemma lexists_prefix: "lexists fs (prefix_dir c @ s) \<longleftrightarrow> node_at fs (path_of (prefix_dir c @ s)) \<noteq> None"
  by (rule lexists_node_at) (rule prefix_dir_nonempty)



section \<open>The overlay synchronizer (C3, C6, C7)\<close>

declare makedirs_at.simps [simp del]

lemma mkdir_at_node:
  "mkdir_at fs p = Inr fs' \<Longrightarrow>
     node_at fs p = None \<and> node_at fs' q = (if q = p then Some Dir else node_at fs q)"
  by (auto simp: mkdir_at_def node_at_update split: if_splits option.splits)
     (auto simp: node_at_def)

lemma makedirs_at_adds:
  "makedirs_at fs p e = Inr fs' \<Longrightarrow> node_at fs q = Some n \<Longrightarrow> node_at fs' q = Some n"
proof (induction fs p e arbitrary: fs' rule: makedirs_at.induct)
  case (1 fs p exist_ok)
  let ?c = "p \<noteq> [] \<and> butlast p \<noteq> [] \<and> \<not> exists_at fs (butlast p)"
  obtain fs1 where fs1: "(if ?c
            then (case makedirs_at fs (butlast p) exist_ok of
                    Inl e \<Rightarrow> if e = FileExistsError then Inr fs else Inl e
                  | Inr fs' \<Rightarrow> Inr fs')
            else Inr fs) = Inr fs1"
    and rest: "(case mkdir_at fs1 p of
             Inl e \<Rightarrow> if \<not> exist_ok \<or> \<not> isdir_at fs1 p then Inl e else Inr fs1
           | Inr fs2 \<Rightarrow> Inr fs2) = Inr fs'"
    using "1.prems"(1) by (subst (asm) makedirs_at.simps) (auto split: sum.splits)
  have n1: "node_at fs1 q = Some n"
  proof (cases ?c)
    case True
    show ?thesis
    proof (cases "makedirs_at fs (butlast p) exist_ok")
      case (Inl e)
      with fs1 True have "fs1 = fs" by (auto split: if_splits)
      with "1.prems"(2) show ?thesis by simp
    next
      case (Inr fs0)
      with fs1 True have "fs1 = fs0" by auto
      with "1.IH"[OF True Inr "1.prems"(2)] show ?thesis by simp
    qed
  next
    case False
    with fs1 have "fs1 = fs" by auto
    with "1.prems"(2) show ?thesis by simp
  qed
  show ?case
  proof (cases "mkdir_at fs1 p")
    case (Inl e)
    with rest have "fs' = fs1" by (auto split: if_splits)
    with n1 show ?thesis by simp
  next
    case (Inr fs2)
    with rest have "fs' = fs2" by simp
    with mkdir_at_node[OF Inr, of q] n1 show ?thesis by auto
  qed
qed

lemma makedirs_at_frame:
  "makedirs_at fs p e = Inr fs' \<Longrightarrow> \<not> prefix q p \<Longrightarrow> node_at fs' q = node_at fs q"
proof (induction fs p e arbitrary: fs' rule: makedirs_at.induct)
  case (1 fs p exist_ok)
  let ?c = "p \<noteq> [] \<and> butlast p \<noteq> [] \<and> \<not> exists_at fs (butlast p)"
  obtain fs1 where fs1: "(if ?c
            then (case makedirs_at fs (butlast p) exist_ok of
                    Inl e \<Rightarrow> if e = FileExistsError then Inr fs else Inl e
                  | Inr fs' \<Rightarrow> Inr fs')
            else Inr fs) = Inr fs1"
    and rest: "(case mkdir_at fs1 p of
             Inl e \<Rightarrow> if \<not> exist_ok \<or> \<not> isdir_at fs1 p then Inl e else Inr fs1
           | Inr fs2 \<Rightarrow> Inr fs2) = Inr fs'"
    using "1.prems"(1) by (subst (asm) makedirs_at.simps) (auto split: sum.splits)
  have np: "\<not> prefix q (butlast p)"
    using "1.prems"(2) by (metis prefix_order.trans prefixeq_butlast)
  have n1: "node_at fs1 q = node_at fs q"
  proof (cases ?c)
    case True
    show ?thesis
    proof (cases "makedirs_at fs (butlast p) exist_ok")
      case (Inl e)
      with fs1 True have "fs1 = fs" by (auto split: if_splits)
      then show ?thesis by simp
    next
      case (Inr fs0)
      with fs1 True have "fs1 = fs0" by auto
      with "1.IH"[OF True Inr np] show ?thesis by simp
    qed
  next
    case False
    with fs1 have "fs1 = fs" by auto
    then show ?thesis by simp
  qed
  have qp: "q \<noteq> p" using "1.prems"(2) by auto
  show ?case
  proof (cases "mkdir_at fs1 p")
    case (Inl e)
    with rest have "fs' = fs1" by (auto split: if_splits)
    with n1 show ?thesis by simp
  next
    case (Inr fs2)
    with rest have "fs' = fs2" by simp
    with mkdir_at_node[OF Inr, of q] n1 qp show ?thesis by auto
  qed
qed


lemma lexists_absent: "\<not> lexists fs s \<Longrightarrow> s = [] \<or> node_at fs (path_of s) = None"
  by (auto simp: lexists_def lstat_def split: if_splits)

lemma absent_not_isdir: "\<not> lexists fs s \<Longrightarrow> \<not> isdir fs s"
  by (simp add: lexists_def isdir_def stat_of_lstat_None)

lemma node_None_nonroot: "node_at fs p = None \<Longrightarrow> p \<noteq> []"
  by (auto simp: node_at_def)

lemma fs_create_adds:
  "fs_create fs s m = Inr fs' \<Longrightarrow>
     node_at fs (path_of s) = None \<and>
     node_at fs' q = (if q = path_of s then Some m else node_at fs q)"
  by (auto simp: fs_create_def node_at_update node_None_nonroot split: if_splits option.splits)

lemma follow_w_absent: "node_at fs p = None \<Longrightarrow> follow_w fs k p = Some p"
  by simp

lemma open_write_absent:
  "node_at fs (path_of dst) = None \<Longrightarrow> open_write fs dst t = Inr (q, fs') \<Longrightarrow>
     q = path_of dst \<and> fs' = AList.update q (File []) fs"
  by (auto simp: open_write_def split: if_splits option.splits)

lemma flush_to_fresh:
  "node_at fs p = None \<Longrightarrow>
   node_at (flush_to (AList.update p (File []) fs) p content) q =
     (if q = p then Some (File content) else node_at fs q)"
  by (auto simp: flush_to_def node_at_update node_None_nonroot)

lemma fs_copyfile_adds:
  assumes "\<not> lexists fs dst" "fs_copyfile fs src dst fl = Inr fs'" "node_at fs q = Some n"
  shows "node_at fs' q = Some n"
proof (cases "dst = []")
  case True
  with assms(2) show ?thesis
    by (auto simp: fs_copyfile_def fs_symlink_def fs_create_def open_write_def
        split: if_splits sum.splits)
next
  case False
  with assms(1) have ab: "node_at fs (path_of dst) = None" using lexists_absent by blast
  with assms(3) have ne: "q \<noteq> path_of dst" by auto
  show ?thesis
  proof (cases "\<not> fl \<and> islink fs src")
    case True
    with assms(2) obtain t where "fs_symlink fs t dst = Inr fs'"
      by (auto simp: fs_copyfile_def split: if_splits sum.splits)
    from fs_create_adds[OF this[unfolded fs_symlink_def], of q] ne assms(3) show ?thesis by simp
  next
    case False
    with assms(2) obtain content p fs1 where
      ow: "open_write fs dst True = Inr (p, fs1)" and f: "fs' = flush_to fs1 p content"
      by (auto simp: fs_copyfile_def split: if_splits sum.splits)
    from open_write_absent[OF ab ow] have "p = path_of dst" "fs1 = AList.update p (File []) fs"
      by simp_all
    with f flush_to_fresh[of fs "path_of dst" content q] ab ne assms(3) show ?thesis by simp
  qed
qed

lemma try_copyfile_adds:
  assumes "\<not> lexists (disk w) dst" "try_copyfile src dst w = (r, w')"
  shows "(node_at (disk w) q = Some n \<longrightarrow> node_at (disk w') q = Some n) \<and> wbuf w' = wbuf w"
proof -
  have nd: "\<not> isdir (disk w) dst" using assms(1) by (rule absent_not_isdir)
  show ?thesis
  proof (cases "fs_copyfile (disk w) src dst True")
    case (Inl e)
    with assms nd show ?thesis
      by (cases e) (auto simp: try_copyfile_def io_simps split: if_splits)
  next
    case (Inr fs')
    with assms nd have "r = Inr ()" "w' = w\<lparr>disk := fs'\<rparr>"
      by (auto simp: try_copyfile_def io_simps)
    with fs_copyfile_adds[OF assms(1) Inr] show ?thesis by simp
  qed
qed

lemma pfx_copy_adds:
  assumes "\<not> lexists (disk w) dst" "pfx_copy src dst dc w = (r, w')"
  shows "(node_at (disk w) q = Some n \<longrightarrow> node_at (disk w') q = Some n) \<and> wbuf w' = wbuf w"
proof (cases "islink (disk w) src \<and> \<not> dc")
  case True
  then obtain t where t: "readlink (disk w) src = Inr t" using islink_readlink by blast
  let ?t = "if is_builtin_target t then normpath (path_join (dirname src) t) else t"
  show ?thesis
  proof (cases "fs_symlink (disk w) ?t dst")
    case (Inl e)
    with assms True t show ?thesis by (auto simp: pfx_copy_def io_simps)
  next
    case (Inr fs')
    with assms True t have "w' = w\<lparr>disk := fs'\<rparr>" by (auto simp: pfx_copy_def io_simps)
    with fs_create_adds[OF Inr[unfolded fs_symlink_def], of q] show ?thesis by auto
  qed
next
  case False
  then have "pfx_copy src dst dc w = try_copyfile src dst w"
    using islink_readlink[of "disk w" src] by (auto simp: pfx_copy_def io_simps)
  with assms try_copyfile_adds[of w dst src r w' q n] show ?thesis by simp
qed

lemma endswith_slash_last_split:
  "endswith a ''/'' \<Longrightarrow> last (split_on CHR ''/'' a) = []"
proof -
  assume "endswith a ''/''"
  then obtain a' where a: "a = a' @ ''/''"
    by (cases "rev a") (auto simp: endswith_def)
  have "split_on CHR ''/'' ''/'' = [[], []]" by simp
  then show ?thesis
    unfolding a by (subst split_on_append) simp
qed

lemma valid_name_split: "valid_name b \<Longrightarrow> split_on CHR ''/'' b = [b]"
  by (simp add: valid_name_def split_on_no_sep)

lemma path_of_join_name:
  assumes "valid_name b"
  shows "path_of (path_join a b) = path_of a @ [b]"
proof -
  from assms have b: "b \<noteq> []" "b \<noteq> ''.''" "b \<noteq> ''..''" "\<not> startswith b ''/''"
    by (auto simp: valid_name_def neq_Nil_conv)
  have sb: "split_on CHR ''/'' b = [b]" using assms by (rule valid_name_split)
  show ?thesis
  proof (cases "a = [] \<or> endswith a ''/''")
    case True
    then have l: "last (split_on CHR ''/'' a) = []"
      by (auto simp: endswith_slash_last_split)
    have "split_on CHR ''/'' a = butlast (split_on CHR ''/'' a) @ [[]]"
      using l split_on_nonempty[of "CHR ''/''" a] by (metis append_butlast_last_id)
    then have pa: "path_of a = walk_comps [] (butlast (split_on CHR ''/'' a))"
      unfolding path_of_def by (metis walk_comps_snoc)
    have "path_join a b = a @ b" using True b by (auto simp: path_join_def)
    then show ?thesis
      using b l pa by (simp add: path_of_def split_on_append sb walk_comps_snoc)
  next
    case False
    then have j: "path_join a b = a @ (''/'' @ b)" using b by (auto simp: path_join_def)
    have "split_on CHR ''/'' (''/'' @ b) = [[], b]" using sb by simp
    then have "split_on CHR ''/'' (a @ (''/'' @ b)) = split_on CHR ''/'' a @ [b]"
      using split_on_nonempty[of "CHR ''/''" a] by (subst split_on_append) simp
    then show ?thesis using b j by (simp add: path_of_def walk_comps_snoc)
  qed
qed

lemma path_join_nonempty: "valid_name b \<Longrightarrow> path_join a b \<noteq> []"
  by (auto simp: path_join_def valid_name_def)

lemma real_not_builtin:
  assumes "lstat fs s = Some n" "real_node n"
  shows "file_is_wine_builtin_dll fs s = Inr False"
proof (cases n)
  case (File b)
  with assms show ?thesis
    by (simp add: file_is_wine_builtin_dll_def islink_def path_exists_def stat_of_lstat_File
        open_read_def real_node_def)
next
  case (Link t)
  with assms show ?thesis by (simp add: real_node_def)
next
  case Dir
  with assms show ?thesis
    by (simp add: file_is_wine_builtin_dll_def islink_def path_exists_def stat_of_lstat_Dir
        open_read_def is_OSError_def)
qed

lemma fs_remove_node:
  "fs_remove fs s = Inr fs' \<Longrightarrow>
     node_at fs' q = (if q = path_of s then None else node_at fs q)"
  by (auto simp: fs_remove_def lstat_def node_at_delete split: option.splits node.splits if_splits)
     (auto simp: node_at_def)

lemma update_builtin_file_keeps:
  assumes name: "valid_name file'"
    and run: "update_builtin_file pats prev rel_dir src_dir dst_dir file' w = (r, w')"
    and q: "node_at (disk w) q = Some n" and real: "real_node n"
  shows "node_at (disk w') q = Some n \<and> prefix (wbuf w) (wbuf w')"
proof -
  let ?src = "path_join src_dir file'" and ?dst = "path_join dst_dir file'"
  let ?p = "path_of dst_dir @ [file']"
  have p: "path_of ?dst = ?p" using name by (rule path_of_join_name)
  have dne: "?dst \<noteq> []" using name by (rule path_join_nonempty)
  have lp: "\<And>fs. lstat fs ?dst = node_at fs ?p" using dne p by (simp add: lstat_def)
  obtain sb where sb: "file_is_wine_builtin_dll (disk w) ?src = Inr sb"
    using file_is_wine_builtin_dll_returns by blast
  obtain db where db: "file_is_wine_builtin_dll (disk w) ?dst = Inr db"
    using file_is_wine_builtin_dll_returns by blast
  have tail: "\<And>w1 r1 w2. \<not> lexists (disk w1) ?dst \<Longrightarrow> node_at (disk w1) q = Some n \<Longrightarrow>
      io_seq (pfx_copy ?src ?dst (list_ex (fnmatch file') pats))
             (if rel_dir @ file' \<notin> set prev then handle_write (rel_dir @ file' @ [NL])
              else io_return ()) w1 = (r1, w2) \<Longrightarrow>
      node_at (disk w2) q = Some n \<and> prefix (wbuf w1) (wbuf w2)"
  proof -
    fix w1 r1 w2
    assume ab: "\<not> lexists (disk w1) ?dst" and q1: "node_at (disk w1) q = Some n"
      and t: "io_seq (pfx_copy ?src ?dst (list_ex (fnmatch file') pats))
             (if rel_dir @ file' \<notin> set prev then handle_write (rel_dir @ file' @ [NL])
              else io_return ()) w1 = (r1, w2)"
    obtain rc wc where c: "pfx_copy ?src ?dst (list_ex (fnmatch file') pats) w1 = (rc, wc)"
      by (cases "pfx_copy ?src ?dst (list_ex (fnmatch file') pats) w1")
    from pfx_copy_adds[OF ab c, of q n] q1
    have k: "node_at (disk wc) q = Some n" "wbuf wc = wbuf w1" by simp_all
    from t c k show "node_at (disk w2) q = Some n \<and> prefix (wbuf w1) (wbuf w2)"
      by (cases rc) (auto simp: io_simps split: if_splits)
  qed
  show ?thesis
  proof (cases sb)
    case False
    with run sb q show ?thesis by (simp add: update_builtin_file_def Let_def io_simps)
  next
    case True
    note src_stub = True
    show ?thesis
    proof (cases db)
      case True
      have qp: "q \<noteq> ?p"
      proof
        assume "q = ?p"
        with q lp have "lstat (disk w) ?dst = Some n" by simp
        from real_not_builtin[OF this real] db True show False by simp
      qed
      show ?thesis
      proof (cases "fs_remove (disk w) ?dst")
        case (Inl e)
        with run sb db src_stub True q show ?thesis
          by (simp add: update_builtin_file_def Let_def io_simps)
      next
        case (Inr fs1)
        let ?w1 = "w\<lparr>disk := fs1\<rparr>"
        from fs_remove_node[OF Inr, of q] qp p q have q1: "node_at (disk ?w1) q = Some n" by simp
        from fs_remove_node[OF Inr, of ?p] p have "\<not> lexists (disk ?w1) ?dst"
          by (simp add: lexists_def lp)
        from tail[OF this q1] run sb db src_stub True Inr show ?thesis
          by (simp add: update_builtin_file_def Let_def io_simps)
      qed
    next
      case False
      note dst_real = False
      show ?thesis
      proof (cases "lexists (disk w) ?dst")
        case True
        with run sb db src_stub dst_real q show ?thesis
          by (simp add: update_builtin_file_def Let_def io_simps)
      next
        case False
        then have ab: "node_at (disk w) ?p = None" by (simp add: lexists_def lp)
        show ?thesis
        proof (cases "fs_makedirs (disk w) dst_dir True")
          case (Inl e)
          with run sb db src_stub dst_real False q show ?thesis
            by (simp add: update_builtin_file_def Let_def io_simps)
        next
          case (Inr fs1)
          let ?w1 = "w\<lparr>disk := fs1\<rparr>"
          from Inr have m: "makedirs_at (disk w) (path_of dst_dir) True = Inr fs1"
            by (auto simp: fs_makedirs_def split: if_splits)
          from makedirs_at_adds[OF m q] have q1: "node_at (disk ?w1) q = Some n" by simp
          have "\<not> prefix ?p (path_of dst_dir)" by (auto simp: prefix_def)
          from makedirs_at_frame[OF m this] ab have "\<not> lexists (disk ?w1) ?dst"
            by (simp add: lexists_def lp)
          from tail[OF this q1] run sb db src_stub dst_real False Inr show ?thesis
            by (simp add: update_builtin_file_def Let_def io_simps)
        qed
      qed
    qed
  qed
qed

lemma for_each_rel_aux:
  assumes refl: "\<And>w. R w w"
    and trans: "\<And>a b c. R a b \<Longrightarrow> R b c \<Longrightarrow> R a c"
  shows "(\<forall>x \<in> set xs. \<forall>w r w'. body x w = (r, w') \<longrightarrow> R w w') \<Longrightarrow>
         for_each xs body w = (r, w') \<Longrightarrow> R w w'"
proof (induction xs arbitrary: w r w')
  case Nil
  then show ?case using refl by (simp add: io_simps)
next
  case (Cons x xs)
  obtain r1 w1 where b: "body x w = (r1, w1)" by (cases "body x w")
  from Cons.prems(1) b have 1: "R w w1" by simp
  from Cons.prems(1) have rest: "\<forall>x \<in> set xs. \<forall>w r w'. body x w = (r, w') \<longrightarrow> R w w'" by simp
  show ?case
  proof (cases r1)
    case (Inl e)
    with Cons.prems(2) b have "w' = w1" by (simp add: io_simps)
    with 1 show ?thesis by simp
  next
    case (Inr u)
    with Cons.prems(2) b have "for_each xs body w1 = (r, w')" by (simp add: io_simps)
    from Cons.IH[OF rest this] have "R w1 w'" .
    with 1 trans show ?thesis by blast
  qed
qed

lemma for_each_rel:
  assumes step: "\<And>x w r w'. x \<in> set xs \<Longrightarrow> body x w = (r, w') \<Longrightarrow> R w w'"
    and refl: "\<And>w. R w w"
    and trans: "\<And>a b c. R a b \<Longrightarrow> R b c \<Longrightarrow> R a c"
    and run: "for_each xs body w = (r, w')"
  shows "R w w'"
proof (rule for_each_rel_aux[where R = R, OF refl trans _ run])
  show "\<forall>x \<in> set xs. \<forall>w r w'. body x w = (r, w') \<longrightarrow> R w w'" using step by blast
qed

lemma fs_makedirs_adds:
  "fs_makedirs fs s e = Inr fs' \<Longrightarrow> node_at fs q = Some n \<Longrightarrow> node_at fs' q = Some n"
  by (auto simp: fs_makedirs_def makedirs_at_adds split: if_splits)

lemma create_tracked_dir_keeps:
  assumes "create_tracked_dir g c src_dir w = (r, w')" "node_at (disk w) q = Some n"
  shows "node_at (disk w') q = Some n \<and> prefix (wbuf w) (wbuf w')"
proof (cases "lexists (disk w) (dst_dir_of g c src_dir)")
  case True
  with assms show ?thesis by (simp add: create_tracked_dir_def io_simps)
next
  case False
  show ?thesis
  proof (cases "fs_makedirs (disk w) (dst_dir_of g c src_dir) False")
    case (Inl e)
    with assms False show ?thesis by (simp add: create_tracked_dir_def io_simps)
  next
    case (Inr fs1)
    with assms False fs_makedirs_adds[OF Inr assms(2)] show ?thesis
      by (auto simp: create_tracked_dir_def io_simps)
  qed
qed


lemma update_builtin_walk_keeps:
  assumes names: "\<forall>(src_dir, dirs, files) \<in> set walk. \<forall>x \<in> set files. valid_name x"
    and run: "update_builtin_walk g c pats prev walk w = (r, w')"
    and q: "node_at (disk w) q = Some n" and real: "real_node n"
  shows "node_at (disk w') q = Some n \<and> prefix (wbuf w) (wbuf w')"
proof -
  let ?R = "\<lambda>w w'. node_at (disk w) q = Some n \<longrightarrow>
                    node_at (disk w') q = Some n \<and> prefix (wbuf w) (wbuf w')"
  have files: "\<And>sd fl w r w'. \<forall>x \<in> set fl. valid_name x \<Longrightarrow>
      for_each fl (update_builtin_file pats prev (rel_dir_of g sd) sd (dst_dir_of g c sd)) w = (r, w')
      \<Longrightarrow> ?R w w'"
  proof -
    fix sd fl w r w'
    assume v: "\<forall>x \<in> set fl. valid_name x"
      and f: "for_each fl (update_builtin_file pats prev (rel_dir_of g sd) sd (dst_dir_of g c sd)) w
              = (r, w')"
    show "?R w w'"
    proof (rule for_each_rel[where R = ?R, OF _ _ _ f])
      fix x w r w'
      assume "x \<in> set fl"
        and "update_builtin_file pats prev (rel_dir_of g sd) sd (dst_dir_of g c sd) x w = (r, w')"
      with v update_builtin_file_keeps[of x pats prev "rel_dir_of g sd" sd "dst_dir_of g c sd" w r w' q n]
        real
      show "?R w w'" by blast
    next
      fix w show "?R w w" by simp
    next
      fix a b c assume "?R a b" "?R b c"
      then show "?R a c" by (meson prefix_order.trans)
    qed
  qed
  have "?R w w'"
  proof (rule for_each_rel[where R = ?R, OF _ _ _ run[unfolded update_builtin_walk_def]])
    fix x w r w'
    assume x: "x \<in> set walk"
      and b: "(case x of (src_dir, dirs, files) \<Rightarrow>
                io_seq (create_tracked_dir g c src_dir)
                  (for_each files
                     (update_builtin_file pats prev (rel_dir_of g src_dir) src_dir
                        (dst_dir_of g c src_dir)))) w = (r, w')"
    obtain sd ds fl where xe: "x = (sd, ds, fl)" by (cases x)
    with x names have v: "\<forall>y \<in> set fl. valid_name y" by auto
    obtain r1 w1 where c: "create_tracked_dir g c sd w = (r1, w1)"
      by (cases "create_tracked_dir g c sd w")
    have 1: "?R w w1" using create_tracked_dir_keeps[OF c] by blast
    show "?R w w'"
    proof (cases r1)
      case (Inl e)
      with b xe c have "w' = w1" by (simp add: io_simps)
      with 1 show ?thesis by simp
    next
      case (Inr u)
      with b xe c have
        "for_each fl (update_builtin_file pats prev (rel_dir_of g sd) sd (dst_dir_of g c sd)) w1
         = (r, w')"
        by (simp add: io_simps)
      from files[OF v this] 1 show ?thesis by (meson prefix_order.trans)
    qed
  next
    fix w show "?R w w" by simp
  next
    fix a b c assume "?R a b" "?R b c"
    then show "?R a c" by (meson prefix_order.trans)
  qed
  with q show ?thesis by simp
qed

declare follow.simps [simp del] follow_w.simps [simp del]

lemma listdir_valid:
  assumes "wf_fs fs" "x \<in> set (listdir fs p)"
  shows "valid_name x"
proof -
  from assms(2) obtain q n where qn: "(q, n) \<in> set fs" "q \<noteq> []" "x = last q"
    by (auto simp: listdir_def)
  from assms(1) qn(1) have "list_all valid_name q"
    by (auto simp: wf_fs_def list_all_iff)
  with qn(2,3) show ?thesis by (simp add: list_all_iff)
qed

lemma walk_fuel_names:
  "wf_fs fs \<Longrightarrow> (sd, ds, fl) \<in> set (walk_fuel k fs topdir) \<Longrightarrow> x \<in> set fl \<Longrightarrow> valid_name x"
proof (induction k arbitrary: topdir)
  case 0
  then show ?case by simp
next
  case (Suc k)
  from Suc.prems(2) have d: "lstat fs topdir = Some Dir"
    by (auto split: if_splits)
  let ?names = "listdir fs (path_of topdir)"
  from Suc.prems(2) d consider
    (here) "fl = filter (\<lambda>d. \<not> isdir fs (path_join topdir d)) ?names"
  | (below) d' where "(sd, ds, fl) \<in> set (walk_fuel k fs (path_join topdir d'))"
    by (auto simp: Let_def)
  then show ?case
  proof cases
    case here
    with Suc.prems(3) have "x \<in> set ?names" by simp
    with Suc.prems(1) show ?thesis by (rule listdir_valid)
  next
    case below
    from Suc.IH[OF Suc.prems(1) below Suc.prems(3)] show ?thesis .
  qed
qed

lemma os_walk_names:
  "wf_fs fs \<Longrightarrow> \<forall>(src_dir, dirs, files) \<in> set (os_walk fs topdir). \<forall>x \<in> set files. valid_name x"
  unfolding os_walk_def using walk_fuel_names by blast

lemma follow_then_follow_w: "follow fs k p = Some q \<Longrightarrow> follow_w fs k p = Some q"
proof (induction fs k p rule: follow.induct)
  case (1 fs n p)
  show ?case
  proof (cases "node_at fs p")
    case None
    with "1.prems" show ?thesis by (simp add: follow.simps[of fs n p])
  next
    case (Some m)
    show ?thesis
    proof (cases m)
      case (Link t)
      with Some "1.prems" have n: "n \<noteq> 0" and f: "follow fs (n - 1) (link_target p t) = Some q"
        by (auto simp: follow.simps[of fs n p] split: if_splits)
      from "1.IH"[OF Some Link n f] Some Link n show ?thesis
        by (simp add: follow_w.simps[of fs n p])
    next
      case (File x)
      with Some have "follow_w fs n p = Some p" "follow fs n p = Some p"
        by (simp_all add: follow.simps[of fs n p] follow_w.simps[of fs n p])
      with "1.prems" show ?thesis by simp
    next
      case Dir
      with Some have "follow_w fs n p = Some p" "follow fs n p = Some p"
        by (simp_all add: follow.simps[of fs n p] follow_w.simps[of fs n p])
      with "1.prems" show ?thesis by simp
    qed
  qed
qed

lemma open_read_then_append:
  assumes "open_read fs s = Inr m"
  obtains q where "follow fs 40 (path_of s) = Some q" "node_at fs q = Some (File m)"
    "open_write fs s False = Inr (q, fs)"
proof -
  from assms have ne: "s \<noteq> []" by (auto simp: open_read_def stat_def split: if_splits)
  from assms obtain q where q: "follow fs 40 (path_of s) = Some q" "node_at fs q = Some (File m)"
    by (auto simp: open_read_def stat_def split: if_splits option.splits node.splits)
  from follow_then_follow_w[OF q(1)] q(2) ne have "open_write fs s False = Inr (q, fs)"
    by (simp add: open_write_def)
  with q that show thesis by blast
qed

lemma flush_to_node:
  "node_at (flush_to fs p buf) q =
     (if q = p then (case node_at fs p of Some (File c) \<Rightarrow> Some (File (c @ buf)) | x \<Rightarrow> x)
      else node_at fs q)"
  by (auto simp: flush_to_def node_at_update split: option.splits node.splits)
     (auto simp: node_at_def)

section \<open>The two passes of the removal (C4)\<close>





















section \<open>Real files survive the synchronizer (C3)\<close>

lemma update_builtin_libs_unreadable:
  "open_read (disk w) (tracked_files_file c) = Inl e \<Longrightarrow>
   update_builtin_libs g c pats w = (Inl e, w)"
  by (simp add: update_builtin_libs_def io_simps)

lemma update_builtin_libs_run:
  assumes "open_read (disk w) (tracked_files_file c) = Inr m"
  obtains q0 r1 w1 where "follow (disk w) 40 (path_of (tracked_files_file c)) = Some q0"
    "node_at (disk w) q0 = Some (File m)"
    "update_builtin_walk g c (split_on CHR '','' pats) (map py_strip (file_lines m))
       (os_walk (disk w) (default_pfx_dir g)) (w\<lparr>wbuf := []\<rparr>) = (r1, w1)"
    "update_builtin_libs g c pats w =
       (r1, w1\<lparr>disk := flush_to (disk w1) q0 (wbuf w1), wbuf := wbuf w\<rparr>)"
proof -
  from open_read_then_append[OF assms] obtain q0 where
    q0: "follow (disk w) 40 (path_of (tracked_files_file c)) = Some q0"
      "node_at (disk w) q0 = Some (File m)"
      "open_write (disk w) (tracked_files_file c) False = Inr (q0, disk w)"
    by blast
  obtain r1 w1 where run: "update_builtin_walk g c (split_on CHR '','' pats)
       (map py_strip (file_lines m)) (os_walk (disk w) (default_pfx_dir g)) (w\<lparr>wbuf := []\<rparr>)
       = (r1, w1)"
    by (cases "update_builtin_walk g c (split_on CHR '','' pats)
       (map py_strip (file_lines m)) (os_walk (disk w) (default_pfx_dir g)) (w\<lparr>wbuf := []\<rparr>)")
  have "update_builtin_libs g c pats w =
       (r1, w1\<lparr>disk := flush_to (disk w1) q0 (wbuf w1), wbuf := wbuf w\<rparr>)"
    using assms q0(3) run by (simp add: update_builtin_libs_def with_open_write_def io_simps)
  with q0 run that show thesis by blast
qed

lemma classified_real_node:
  assumes "lstat fs s = Some (File x)" "file_is_wine_builtin_dll fs s = Inr False"
  shows "real_node (File x)"
  using assms
  by (simp add: file_is_wine_builtin_dll_def islink_def path_exists_def stat_of_lstat_File
      open_read_def real_node_def)

text \<open>
  C3: a destination that is a regular file and that the classifier calls real is, after
  \<open>update_builtin_libs\<close>, the same file with the same bytes, whatever the template holds
  and whether the synchronizer returns or raises: what it removes or overwrites is never
  such a file.  The file systems in scope have proper names in every path; the
  destination is not the manifest; and the paths the synchronizer works on are direct:
  the destination, the manifest, the template directory, and the directory of the
  prefix that answers to each directory of the template.
\<close>

theorem update_builtin_libs_keeps_real:
  assumes run: "update_builtin_libs g c dll_copy_patterns w = (r, w')"
    and wf: "wf_fs (disk w)"
    and there: "lstat (disk w) dst = Some (File content)"
    and real: "file_is_wine_builtin_dll (disk w) dst = Inr False"
    and other: "follow (disk w) 40 (path_of (tracked_files_file c)) \<noteq> Some (path_of dst)"
    and direct: "direct_path (disk w) dst" "direct_path (disk w) (tracked_files_file c)"
      "plain_dir (disk w) (default_pfx_dir g)"
      "\<forall>(src_dir, dirs, files) \<in> set (os_walk (disk w) (default_pfx_dir g)).
         plain_dir (disk w) (dst_dir_of g c src_dir)"
  shows "lstat (disk w') dst = Some (File content)"
proof (cases "open_read (disk w) (tracked_files_file c)")
  case (Inl e)
  from update_builtin_libs_unreadable[OF Inl, of g dll_copy_patterns] run there
  show ?thesis by simp
next
  case (Inr m)
  from there have ne: "dst \<noteq> []" and n: "node_at (disk w) (path_of dst) = Some (File content)"
    by (auto simp: lstat_def split: if_splits)
  have rn: "real_node (File content)" using there real by (rule classified_real_node)
  from update_builtin_libs_run[OF Inr, of g dll_copy_patterns] obtain q0 r1 w1 where
    q0: "follow (disk w) 40 (path_of (tracked_files_file c)) = Some q0" and
    walk: "update_builtin_walk g c (split_on CHR '','' dll_copy_patterns)
       (map py_strip (file_lines m)) (os_walk (disk w) (default_pfx_dir g)) (w\<lparr>wbuf := []\<rparr>)
       = (r1, w1)" and
    res: "update_builtin_libs g c dll_copy_patterns w =
       (r1, w1\<lparr>disk := flush_to (disk w1) q0 (wbuf w1), wbuf := wbuf w\<rparr>)"
    by blast
  have names: "\<forall>(src_dir, dirs, files) \<in> set (os_walk (disk w) (default_pfx_dir g)).
      \<forall>x \<in> set files. valid_name x"
    using wf by (rule os_walk_names)
  have n0: "node_at (disk (w\<lparr>wbuf := []\<rparr>)) (path_of dst) = Some (File content)"
    using n by simp
  from update_builtin_walk_keeps[OF names walk n0 rn]
  have n1: "node_at (disk w1) (path_of dst) = Some (File content)" by simp
  from q0 other have "path_of dst \<noteq> q0" by auto
  with n1 have "node_at (flush_to (disk w1) q0 (wbuf w1)) (path_of dst) = Some (File content)"
    by (simp add: flush_to_node)
  with run res ne show ?thesis by (auto simp: lstat_def)
qed

theorem update_builtin_libs_keeps_real_witness:
  "wf_fs sync_fs \<and>
   lstat sync_fs ''/c/pfx/d/u.dll'' = Some (File ''user'') \<and>
   file_is_wine_builtin_dll sync_fs ''/c/pfx/d/u.dll'' = Inr False \<and>
   file_is_wine_builtin_dll sync_fs ''/p/files/share/default_pfx/d/u.dll'' = Inr True \<and>
   follow sync_fs 40 (path_of (tracked_files_file ex_compat)) \<noteq> Some (path_of ''/c/pfx/d/u.dll'') \<and>
   direct_path sync_fs ''/c/pfx/d/u.dll'' \<and>
   direct_path sync_fs (tracked_files_file ex_compat) \<and>
   plain_dir sync_fs (default_pfx_dir ex_proton) \<and>
   list_all (\<lambda>(src_dir, dirs, files). plain_dir sync_fs (dst_dir_of ex_proton ex_compat src_dir))
     (os_walk sync_fs (default_pfx_dir ex_proton)) \<and>
   lstat (disk (snd (update_builtin_libs ex_proton ex_compat [] (on_disk sync_fs))))
     ''/c/pfx/d/u.dll'' = Some (File ''user'') \<and>
   lstat (disk (snd (update_builtin_libs ex_proton ex_compat [] (on_disk sync_fs))))
     ''/c/pfx/d/k.dll'' = Some (File short_stub)"
proof -
  let ?w = "on_disk sync_fs"
  have dw: "disk ?w = sync_fs" by (simp add: on_disk_def)
  have wf: "wf_fs sync_fs" by code_simp
  have there: "lstat sync_fs ''/c/pfx/d/u.dll'' = Some (File ''user'')" by code_simp
  have real: "file_is_wine_builtin_dll sync_fs ''/c/pfx/d/u.dll'' = Inr False" by code_simp
  have tmpl: "file_is_wine_builtin_dll sync_fs ''/p/files/share/default_pfx/d/u.dll'' = Inr True"
    by code_simp
  have other: "follow sync_fs 40 (path_of (tracked_files_file ex_compat)) \<noteq>
                 Some (path_of ''/c/pfx/d/u.dll'')"
    by code_simp
  have d1: "direct_path sync_fs ''/c/pfx/d/u.dll''" by code_simp
  have d2: "direct_path sync_fs (tracked_files_file ex_compat)" by code_simp
  have d3: "plain_dir sync_fs (default_pfx_dir ex_proton)" by code_simp
  have d4: "list_all (\<lambda>(src_dir, dirs, files). plain_dir sync_fs (dst_dir_of ex_proton ex_compat src_dir))
     (os_walk sync_fs (default_pfx_dir ex_proton))"
    by code_simp
  have d4': "\<forall>(src_dir, dirs, files) \<in> set (os_walk sync_fs (default_pfx_dir ex_proton)).
         plain_dir sync_fs (dst_dir_of ex_proton ex_compat src_dir)"
    using d4 unfolding list_all_iff .
  have run: "update_builtin_libs ex_proton ex_compat [] ?w =
       (fst (update_builtin_libs ex_proton ex_compat [] ?w),
        snd (update_builtin_libs ex_proton ex_compat [] ?w))"
    by simp
  have kept: "lstat (disk (snd (update_builtin_libs ex_proton ex_compat [] ?w)))
     ''/c/pfx/d/u.dll'' = Some (File ''user'')"
    by (rule update_builtin_libs_keeps_real[OF run, unfolded dw, OF wf there real other d1 d2 d3 d4'])
  have made: "lstat (disk (snd (update_builtin_libs ex_proton ex_compat [] ?w)))
     ''/c/pfx/d/k.dll'' = Some (File short_stub)"
    by code_simp
  from wf there real tmpl other d1 d2 d3 d4 kept made show ?thesis by (intro conjI)
qed

section \<open>Records of directories in the manifest (C6)\<close>

text \<open>
  C6 fails on the records of directories.  The manifest of \<open>template_fs\<close> records \<^verbatim>\<open>d/\<close>,
  and the directory has since been deleted from the prefix; the synchronizer creates it
  again and, at line 558, writes its record without looking at \<^verbatim>\<open>prev_tracked_files\<close>,
  as line 575 does for a file: the manifest then holds \<^verbatim>\<open>d/\<close> twice.
\<close>

theorem update_builtin_libs_records_directory_twice:
  "open_read template_fs (tracked_files_file ex_compat) = Inr ''d/\<newline>'' \<and>
   \<not> lexists template_fs ''/c/pfx/d'' \<and>
   fst (update_builtin_libs ex_proton ex_compat [] (on_disk template_fs)) = Inr () \<and>
   open_read (disk (snd (update_builtin_libs ex_proton ex_compat [] (on_disk template_fs))))
     (tracked_files_file ex_compat) = Inr ''d/\<newline>d/\<newline>d/k.dll\<newline>d/u.dll\<newline>''"
  by code_simp

section \<open>Merging a legacy user directory (C8)\<close>

text \<open>
  C8 fails where the destination has one of the directories already.  \<^verbatim>\<open>My Documents\<close>
  holds \<^verbatim>\<open>a/x\<close> and \<^verbatim>\<open>b/y\<close>, and \<^verbatim>\<open>Documents\<close> holds \<^verbatim>\<open>a\<close>.  When the walk comes to \<^verbatim>\<open>a\<close>,
  line 109, \<^verbatim>\<open>extant_dirs += dst_dir\<close>, extends the list by the characters of the path;
  for \<^verbatim>\<open>b\<close>, line 88 then finds the character \<^verbatim>\<open>/\<close> in its destination and the
  directory is skipped, although it is absent at the destination and not below \<^verbatim>\<open>a\<close>.
  The migration returns, \<^verbatim>\<open>My Documents\<close> is a link to \<^verbatim>\<open>Documents\<close>, and \<^verbatim>\<open>b/y\<close> is in the
  backup only.
\<close>

theorem merge_user_dir_skips_sibling:
  "lstat legacy_docs_fs ''/c/pfx/drive_c/users/steamuser/My Documents/b/y'' = Some (File ''save b'') \<and>
   \<not> lexists legacy_docs_fs ''/c/pfx/drive_c/users/steamuser/Documents/b'' \<and>
   fst (migrate_user_paths ex_compat (on_disk legacy_docs_fs)) = Inr () \<and>
   \<not> lexists (disk (snd (migrate_user_paths ex_compat (on_disk legacy_docs_fs))))
       ''/c/pfx/drive_c/users/steamuser/Documents/b'' \<and>
   lstat (disk (snd (migrate_user_paths ex_compat (on_disk legacy_docs_fs))))
       ''/c/pfx/drive_c/users/steamuser/My Documents'' = Some (Link ''./Documents'') \<and>
   lstat (disk (snd (migrate_user_paths ex_compat (on_disk legacy_docs_fs))))
       ''/c/pfx/drive_c/users/steamuser/My Documents BACKUP/b/y'' = Some (File ''save b'')"
  by code_simp

section \<open>When the record of a created directory reaches the manifest (C7)\<close>








section \<open>The migration of the user paths (C9)\<close>

lemma walk_comps_append:
  "walk_comps base (xs @ ys) = walk_comps (walk_comps base xs) ys"
  by (simp add: walk_comps_def)

lemma walk_comps_names:
  "list_all valid_name ns \<Longrightarrow> walk_comps base ns = base @ ns"
  by (induction ns arbitrary: base) (auto simp: walk_comps_def valid_name_def)

lemmas split_on_last_slash = endswith_slash_last_split

lemma path_of_under_dir:
  assumes "endswith a ''/''"
  shows "path_of (a @ b) = walk_comps (path_of a) (split_on CHR ''/'' b)"
proof -
  have l: "last (split_on CHR ''/'' a) = []" using assms by (rule split_on_last_slash)
  have "split_on CHR ''/'' a = butlast (split_on CHR ''/'' a) @ [[]]"
    using split_on_nonempty[of "CHR ''/''" a] l by (metis append_butlast_last_id)
  then have pa: "path_of a = walk_comps [] (butlast (split_on CHR ''/'' a))"
    unfolding path_of_def by (metis walk_comps_snoc)
  have "split_on CHR ''/'' (a @ b) = butlast (split_on CHR ''/'' a) @ split_on CHR ''/'' b"
    using split_on_nonempty[of "CHR ''/''" b]
    by (cases "split_on CHR ''/'' b") (simp_all add: split_on_append l)
  then have "path_of (a @ b) =
      walk_comps (walk_comps [] (butlast (split_on CHR ''/'' a))) (split_on CHR ''/'' b)"
    by (simp add: path_of_def walk_comps_append)
  then show ?thesis unfolding pa .
qed

lemma prefix_dir_slash: "endswith (prefix_dir c) ''/''"
  by (simp add: prefix_dir_def compat_path_def endswith_def)

lemma path_of_prefix:
  "path_of (prefix_dir c @ b) = walk_comps (path_of (prefix_dir c)) (split_on CHR ''/'' b)"
  by (rule path_of_under_dir) (rule prefix_dir_slash)

lemma user_paths:
  "path_of (prefix_dir c @ ''drive_c/users/steamuser/Local Settings/Application Data'') =
     path_of (prefix_dir c) @ [''drive_c'', ''users'', ''steamuser'', ''Local Settings'', ''Application Data'']"
  "path_of (prefix_dir c @ ''drive_c/users/steamuser/Application Data'') =
     path_of (prefix_dir c) @ [''drive_c'', ''users'', ''steamuser'', ''Application Data'']"
  "path_of (prefix_dir c @ ''drive_c/users/steamuser/My Documents'') =
     path_of (prefix_dir c) @ [''drive_c'', ''users'', ''steamuser'', ''My Documents'']"
  "path_of (prefix_dir c @ ''drive_c/users/steamuser/AppData/Local'') =
     path_of (prefix_dir c) @ [''drive_c'', ''users'', ''steamuser'', ''AppData'', ''Local'']"
  "path_of (prefix_dir c @ ''drive_c/users/steamuser/AppData/Roaming'') =
     path_of (prefix_dir c) @ [''drive_c'', ''users'', ''steamuser'', ''AppData'', ''Roaming'']"
  "path_of (prefix_dir c @ ''drive_c/users/steamuser/Documents'') =
     path_of (prefix_dir c) @ [''drive_c'', ''users'', ''steamuser'', ''Documents'']"
  by (simp_all add: path_of_prefix walk_comps_def)

lemma split_on_no_sep_in: "c \<in> set (split_on sep s) \<Longrightarrow> sep \<notin> set c"
proof (induction s arbitrary: c)
  case Nil
  then show ?case by simp
next
  case (Cons x s)
  show ?case
  proof (cases "x = sep")
    case True
    with Cons show ?thesis by auto
  next
    case False
    obtain p ps where sp: "split_on sep s = p # ps"
      using split_on_nonempty[of sep s] by (cases "split_on sep s") auto
    with Cons.prems False have "c = x # p \<or> c \<in> set ps" by auto
    then show ?thesis
    proof
      assume "c = x # p"
      moreover have "sep \<notin> set p" using Cons.IH[of p] sp by simp
      ultimately show ?thesis using False by auto
    next
      assume "c \<in> set ps"
      then show ?thesis using Cons.IH[of c] sp by simp
    qed
  qed
qed

lemma walk_comps_valid:
  "list_all valid_name base \<Longrightarrow> \<forall>c \<in> set comps. CHR ''/'' \<notin> set c \<Longrightarrow>
   list_all valid_name (walk_comps base comps)"
proof (induction comps arbitrary: base)
  case Nil
  then show ?case by (simp add: walk_comps_def)
next
  case (Cons c comps)
  have step: "list_all valid_name
      (if c = [] \<or> c = ''.'' then base else if c = ''..'' then butlast base else base @ [c])"
    using Cons.prems by (auto simp: valid_name_def list_all_iff dest: in_set_butlastD)
  have "walk_comps base (c # comps) =
      walk_comps (if c = [] \<or> c = ''.'' then base else if c = ''..'' then butlast base else base @ [c]) comps"
    by (simp add: walk_comps_def)
  with Cons.IH[OF step] Cons.prems(2) show ?case by simp
qed

lemma path_of_valid: "list_all valid_name (path_of s)"
  unfolding path_of_def by (rule walk_comps_valid) (auto dest: split_on_no_sep_in)

lemma link_target_valid: "list_all valid_name p \<Longrightarrow> list_all valid_name (link_target p t)"
proof (cases "startswith t ''/''")
  case True
  then show ?thesis by (simp add: link_target_def path_of_valid)
next
  case False
  assume "list_all valid_name p"
  then have "list_all valid_name (butlast p)"
    by (auto simp: list_all_iff dest: in_set_butlastD)
  then have "list_all valid_name (walk_comps (butlast p) (split_on CHR ''/'' t))"
    by (rule walk_comps_valid) (auto dest: split_on_no_sep_in)
  with False show ?thesis by (simp add: link_target_def)
qed

lemma wf_update: "wf_fs fs \<Longrightarrow> list_all valid_name p \<Longrightarrow> wf_fs (AList.update p n fs)"
  by (induction fs) (auto simp: wf_fs_def)

lemma wf_delete: "wf_fs fs \<Longrightarrow> wf_fs (AList.delete p fs)"
  by (induction fs) (auto simp: wf_fs_def)

lemma startswith_append: "startswith (b @ r) b"
  by (induction b) auto

lemma startswith_iff: "startswith s t \<longleftrightarrow> (\<exists>r. s = t @ r)"
proof (induction s t rule: startswith.induct)
  case (1 s)
  then show ?case by simp
next
  case (2 c cs)
  then show ?case by simp
next
  case (3 x xs c cs)
  then show ?case by auto
qed

lemma wf_rekey: "wf_fs fs \<Longrightarrow> list_all valid_name b \<Longrightarrow> wf_fs (rekey a b fs)"
proof (induction fs)
  case Nil
  then show ?case by (simp add: wf_fs_def rekey_def)
next
  case (Cons x fs)
  obtain q n where x: "x = (q, n)" by (cases x)
  from Cons.prems x have q: "list_all valid_name q" and rest: "wf_fs fs"
    by (simp_all add: wf_fs_def)
  from q have "list_all valid_name (drop (length a) q)"
    by (auto simp: list_all_iff dest: in_set_dropD)
  with Cons.prems(2) have "list_all valid_name (b @ drop (length a) q)" by simp
  with q x Cons.IH[OF rest Cons.prems(2)] show ?case
    by (simp add: wf_fs_def rekey_def)
qed

lemma map_of_rekey_other:
  "\<not> startswith q a \<Longrightarrow> \<not> startswith q b \<Longrightarrow> map_of (rekey a b fs) q = map_of fs q"
  by (induction fs) (auto simp: rekey_def startswith_append)

lemma node_at_rekey_other:
  "\<not> startswith q a \<Longrightarrow> \<not> startswith q b \<Longrightarrow> node_at (rekey a b fs) q = node_at fs q"
  by (simp add: node_at_def map_of_rekey_other)

lemma map_of_rekey_gone:
  "\<not> startswith a b \<Longrightarrow> map_of (rekey a b fs) a = None"
proof (induction fs)
  case Nil
  then show ?case by (simp add: rekey_def)
next
  case (Cons x fs)
  obtain q n where x: "x = (q, n)" by (cases x)
  have ih: "map_of (rekey a b fs) a = None" using Cons by simp
  show ?case
  proof (cases "startswith q a")
    case True
    have "b @ drop (length a) q \<noteq> a"
    proof
      assume "b @ drop (length a) q = a"
      then have "startswith a b" using startswith_append[of b "drop (length a) q"] by simp
      with Cons.prems show False by simp
    qed
    with True x ih show ?thesis by (simp add: rekey_def)
  next
    case False
    then have "q \<noteq> a" using startswith_append[of a "[]"] by auto
    with False x ih show ?thesis by (simp add: rekey_def)
  qed
qed

lemma keeps_refl: "keeps roots fs fs"
  by (simp add: keeps_def)

lemma keeps_trans: "keeps roots a b \<Longrightarrow> keeps roots b c \<Longrightarrow> keeps roots a c"
  unfolding keeps_def by blast

lemma startswith_trans: "startswith a b \<Longrightarrow> startswith b c \<Longrightarrow> startswith a c"
  by (auto simp: startswith_iff)

lemma startswith_refl: "startswith a a"
  using startswith_append[of a "[]"] by simp

lemma keeps_weaken:
  assumes "keeps roots fs fs'" "\<forall>r \<in> set roots. \<exists>r' \<in> set roots'. startswith r r'"
  shows "keeps roots' fs fs'"
  unfolding keeps_def
proof (intro conjI allI impI)
  assume "wf_fs fs" with assms(1) show "wf_fs fs'" by (simp add: keeps_def)
next
  fix q n assume out: "\<forall>r \<in> set roots'. \<not> startswith q r" and n: "node_at fs q = Some n"
  have "\<forall>r \<in> set roots. \<not> startswith q r"
  proof
    fix r assume r: "r \<in> set roots"
    with assms(2) obtain r' where r': "r' \<in> set roots'" "startswith r r'" by blast
    show "\<not> startswith q r"
    proof
      assume "startswith q r"
      then have "startswith q r'" using r'(2) by (rule startswith_trans)
      with out r'(1) show False by blast
    qed
  qed
  with assms(1) n show "node_at fs' q = Some n" unfolding keeps_def by blast
qed

lemma keeps_adds:
  assumes "wf_fs fs \<Longrightarrow> wf_fs fs'" "\<And>q n. node_at fs q = Some n \<Longrightarrow> node_at fs' q = Some n"
  shows "keeps roots fs fs'"
  using assms unfolding keeps_def by blast

lemma fs_remove_keeps: "fs_remove fs s = Inr fs' \<Longrightarrow> keeps [path_of s] fs fs'"
  unfolding keeps_def
proof (intro conjI allI impI)
  assume r: "fs_remove fs s = Inr fs'" and "wf_fs fs"
  then show "wf_fs fs'"
    by (auto simp: fs_remove_def wf_delete split: option.splits node.splits)
next
  fix q n assume r: "fs_remove fs s = Inr fs'"
    and out: "\<forall>r \<in> set [path_of s]. \<not> startswith q r" and n: "node_at fs q = Some n"
  from out have "q \<noteq> path_of s" using startswith_refl by auto
  with fs_remove_node[OF r, of q] n show "node_at fs' q = Some n" by simp
qed

lemma fs_create_keeps: "fs_create fs s m = Inr fs' \<Longrightarrow> keeps roots fs fs'"
proof (rule keeps_adds)
  assume c: "fs_create fs s m = Inr fs'" and "wf_fs fs"
  then show "wf_fs fs'"
    by (auto simp: fs_create_def wf_update path_of_valid split: if_splits option.splits)
next
  fix q n assume c: "fs_create fs s m = Inr fs'" and n: "node_at fs q = Some n"
  from fs_create_adds[OF c, of q] n show "node_at fs' q = Some n" by auto
qed

lemma mkdir_at_wf: "mkdir_at fs p = Inr fs' \<Longrightarrow> list_all valid_name p \<Longrightarrow> wf_fs fs \<Longrightarrow> wf_fs fs'"
  by (auto simp: mkdir_at_def wf_update split: if_splits option.splits)

lemma makedirs_at_wf:
  "makedirs_at fs p e = Inr fs' \<Longrightarrow> list_all valid_name p \<Longrightarrow> wf_fs fs \<Longrightarrow> wf_fs fs'"
proof (induction fs p e arbitrary: fs' rule: makedirs_at.induct)
  case (1 fs p exist_ok)
  let ?c = "p \<noteq> [] \<and> butlast p \<noteq> [] \<and> \<not> exists_at fs (butlast p)"
  obtain fs1 where fs1: "(if ?c
            then (case makedirs_at fs (butlast p) exist_ok of
                    Inl e \<Rightarrow> if e = FileExistsError then Inr fs else Inl e
                  | Inr fs' \<Rightarrow> Inr fs')
            else Inr fs) = Inr fs1"
    and rest: "(case mkdir_at fs1 p of
             Inl e \<Rightarrow> if \<not> exist_ok \<or> \<not> isdir_at fs1 p then Inl e else Inr fs1
           | Inr fs2 \<Rightarrow> Inr fs2) = Inr fs'"
    using "1.prems"(1) by (subst (asm) makedirs_at.simps) (auto split: sum.splits)
  have vb: "list_all valid_name (butlast p)"
    using "1.prems"(2) by (auto simp: list_all_iff dest: in_set_butlastD)
  have w1: "wf_fs fs1"
  proof (cases ?c)
    case True
    show ?thesis
    proof (cases "makedirs_at fs (butlast p) exist_ok")
      case (Inl e)
      with fs1 True have "fs1 = fs" by (auto split: if_splits)
      with "1.prems"(3) show ?thesis by simp
    next
      case (Inr fs0)
      with fs1 True have "fs1 = fs0" by auto
      with "1.IH"[OF True Inr vb "1.prems"(3)] show ?thesis by simp
    qed
  next
    case False
    with fs1 have "fs1 = fs" by auto
    with "1.prems"(3) show ?thesis by simp
  qed
  show ?case
  proof (cases "mkdir_at fs1 p")
    case (Inl e)
    with rest have "fs' = fs1" by (auto split: if_splits)
    with w1 show ?thesis by simp
  next
    case (Inr fs2)
    with rest have "fs' = fs2" by simp
    with mkdir_at_wf[OF Inr "1.prems"(2) w1] show ?thesis by simp
  qed
qed

lemma fs_makedirs_keeps: "fs_makedirs fs s e = Inr fs' \<Longrightarrow> keeps roots fs fs'"
proof (rule keeps_adds)
  assume m: "fs_makedirs fs s e = Inr fs'" and "wf_fs fs"
  then show "wf_fs fs'"
    by (auto simp: fs_makedirs_def path_of_valid split: if_splits intro: makedirs_at_wf)
next
  fix q n assume "fs_makedirs fs s e = Inr fs'" "node_at fs q = Some n"
  then show "node_at fs' q = Some n" by (rule fs_makedirs_adds)
qed

lemma makedirs_keeps: "makedirs path w = (r, w') \<Longrightarrow> keeps roots (disk w) (disk w')"
  by (cases "fs_makedirs (disk w) path False")
     (auto simp: makedirs_def io_simps keeps_refl fs_makedirs_keeps split: if_splits)

lemma fs_copyfile_wf:
  assumes "\<not> lexists fs dst" "fs_copyfile fs src dst fl = Inr fs'" "wf_fs fs"
  shows "wf_fs fs'"
proof (cases "dst = []")
  case True
  with assms(2) show ?thesis
    by (auto simp: fs_copyfile_def fs_symlink_def fs_create_def open_write_def
        split: if_splits sum.splits)
next
  case False
  with assms(1) have ab: "node_at fs (path_of dst) = None" using lexists_absent by blast
  show ?thesis
  proof (cases "\<not> fl \<and> islink fs src")
    case True
    with assms(2) obtain t where "fs_symlink fs t dst = Inr fs'"
      by (auto simp: fs_copyfile_def split: if_splits sum.splits)
    from fs_create_keeps[OF this[unfolded fs_symlink_def], of "[]"] assms(3) show ?thesis
      by (simp add: keeps_def)
  next
    case False
    with assms(2) obtain content p fs1 where
      ow: "open_write fs dst True = Inr (p, fs1)" and f: "fs' = flush_to fs1 p content"
      by (auto simp: fs_copyfile_def split: if_splits sum.splits)
    from open_write_absent[OF ab ow] have p: "p = path_of dst" "fs1 = AList.update p (File []) fs"
      by simp_all
    have w1: "wf_fs fs1" using p assms(3) by (simp add: wf_update path_of_valid)
    have "wf_fs (flush_to fs1 p content)"
      using w1 p(1) by (auto simp: flush_to_def wf_update path_of_valid split: option.splits node.splits)
    with f show ?thesis by simp
  qed
qed

lemma fs_copyfile_keeps:
  "\<not> lexists fs dst \<Longrightarrow> fs_copyfile fs src dst fl = Inr fs' \<Longrightarrow> keeps roots fs fs'"
  by (rule keeps_adds) (auto intro: fs_copyfile_wf fs_copyfile_adds)

lemma fs_rename_keeps:
  assumes "fs_rename fs src dst = Inr fs'"
  shows "keeps [path_of src, path_of dst] fs fs'"
proof -
  let ?a = "path_of src" and ?b = "path_of dst"
  from assms consider (same) "fs' = fs"
    | (move) "fs' = rekey ?a ?b fs"
    | (over) "fs' = rekey ?a ?b (AList.delete ?b fs)"
    by (auto simp: fs_rename_def split: option.splits if_splits node.splits)
  then show ?thesis
  proof cases
    case same
    then show ?thesis by (simp add: keeps_refl)
  next
    case move
    show ?thesis unfolding keeps_def move
      by (auto simp: wf_rekey path_of_valid node_at_rekey_other)
  next
    case over
    show ?thesis unfolding keeps_def over
    proof (intro conjI allI impI)
      assume "wf_fs fs"
      then show "wf_fs (rekey ?a ?b (AList.delete ?b fs))"
        by (simp add: wf_rekey wf_delete path_of_valid)
    next
      fix q n assume out: "\<forall>r \<in> set [?a, ?b]. \<not> startswith q r" and n: "node_at fs q = Some n"
      from out have "q \<noteq> ?b" using startswith_refl by auto
      with out n show "node_at (rekey ?a ?b (AList.delete ?b fs)) q = Some n"
        by (simp add: node_at_rekey_other node_at_delete)
    qed
  qed
qed

lemma fs_rename_gone:
  assumes "fs_rename fs src dst = Inr fs'" "\<not> startswith (path_of src) (path_of dst)"
    "path_of src \<noteq> []"
  shows "node_at fs' (path_of src) = None"
proof -
  let ?a = "path_of src" and ?b = "path_of dst"
  from assms(2) have "?a \<noteq> ?b" using startswith_refl[of ?a] by auto
  with assms(1) consider (move) "fs' = rekey ?a ?b fs"
    | (over) "fs' = rekey ?a ?b (AList.delete ?b fs)"
    by (auto simp: fs_rename_def split: option.splits if_splits node.splits)
  then show ?thesis
    using assms(2,3) by cases (simp_all add: node_at_def map_of_rekey_gone)
qed

lemma io_try_disk:
  assumes "\<And>e w r w'. h e w = (r, w') \<Longrightarrow> disk w' = disk w" "io_try m h w = (r, w')"
  obtains r1 w1 where "m w = (r1, w1)" "disk w' = disk w1"
proof (cases "m w")
  case (Pair r1 w1)
  show thesis
  proof (cases r1)
    case (Inl e)
    with Pair assms(2) have "h e w1 = (r, w')" by (simp add: io_simps)
    from assms(1)[OF this] Pair that show thesis by blast
  next
    case (Inr x)
    with Pair assms(2) have "w' = w1" by (simp add: io_simps)
    with Pair that show thesis by blast
  qed
qed

lemma copy_handler_disk:
  assumes "(if e = FileNotFoundError then
               (if optional then log (copy_error_msg dst e) else io_raise e)
             else (case e of
                     PermissionError n \<Rightarrow>
                       if n = EPERM then log (copy_error_msg dst e) else io_raise e
                   | _ \<Rightarrow> io_raise e)) w = (r, w')"
  shows "disk w' = disk w"
  using assms by (cases e) (auto simp: io_simps split: if_splits)

lemma fs_remove_absent: "fs_remove fs s = Inr fs' \<Longrightarrow> \<not> lexists fs' s"
  using fs_remove_node[of fs s fs' "path_of s"]
  by (auto simp: lexists_def lstat_def)

lemma try_copy_keeps:
  assumes ne: "\<not> path_exists (disk w) dst"
    and run: "try_copy src dst True True False False w = (r, w')"
  shows "keeps [path_of dst] (disk w) (disk w')"
proof -
  have nd: "\<not> isdir (disk w) dst" using ne by (auto simp: path_exists_def isdir_def)
  let ?body = "io_bind (io_read (\<lambda>fs. isdir fs dst)) (\<lambda>dst_isdir.
        let dstfile = (if dst_isdir then dst @ ''/'' @ basename src else dst) in
        io_seq (io_bind (io_read (\<lambda>fs. lexists fs dstfile)) (\<lambda>there.
                  if there then io_update (\<lambda>fs. fs_remove fs dstfile) else io_return ()))
       (io_seq (io_update (\<lambda>fs. fs_copy2 fs src dst False))
               (io_update (\<lambda>fs. fs_chmod_add_write fs dstfile))))"
  from run obtain r1 w1 where b: "?body w = (r1, w1)" and d: "disk w' = disk w1"
    unfolding try_copy_def
    by (rule io_try_disk[rotated]) (auto dest: copy_handler_disk)
  have "keeps [path_of dst] (disk w) (disk w1)"
  proof (cases "lexists (disk w) dst")
    case False
    have nd1: "\<not> isdir (disk w) dst" by (rule nd)
    show ?thesis
    proof (cases "fs_copyfile (disk w) src dst False")
      case (Inl e)
      with b False nd have "disk w1 = disk w"
        by (auto simp: io_simps fs_copy2_def fs_copy_def)
      then show ?thesis by (simp add: keeps_refl)
    next
      case (Inr f2)
      with b False nd have "disk w1 = f2"
        by (auto simp: io_simps fs_copy2_def fs_copy_def fs_chmod_add_write_def split: if_splits)
      with fs_copyfile_keeps[OF False Inr] show ?thesis by simp
    qed
  next
    case True
    show ?thesis
    proof (cases "fs_remove (disk w) dst")
      case (Inl e)
      with b True nd have "disk w1 = disk w" by (auto simp: io_simps)
      then show ?thesis by (simp add: keeps_refl)
    next
      case (Inr f1)
      have k1: "keeps [path_of dst] (disk w) f1" using Inr by (rule fs_remove_keeps)
      have ab: "\<not> lexists f1 dst" using Inr by (rule fs_remove_absent)
      have nd1: "\<not> isdir f1 dst" using ab by (rule absent_not_isdir)
      show ?thesis
      proof (cases "fs_copyfile f1 src dst False")
        case (Inl e)
        with b True nd Inr nd1 have "disk w1 = f1"
          by (auto simp: io_simps fs_copy2_def fs_copy_def)
        with k1 show ?thesis by simp
      next
        case c: (Inr f2)
        with b True nd Inr nd1 have "disk w1 = f2"
          by (auto simp: io_simps fs_copy2_def fs_copy_def fs_chmod_add_write_def split: if_splits)
        with keeps_trans[OF k1 fs_copyfile_keeps[OF ab c]] show ?thesis by simp
      qed
    qed
  qed
  with d show ?thesis by simp
qed

lemma for_fold_rel_aux:
  assumes refl: "\<And>w. R w w"
    and trans: "\<And>a b c. R a b \<Longrightarrow> R b c \<Longrightarrow> R a c"
  shows "(\<forall>x \<in> set xs. \<forall>acc w r w'. body x acc w = (r, w') \<longrightarrow> R w w') \<Longrightarrow>
         for_fold xs acc body w = (r, w') \<Longrightarrow> R w w'"
proof (induction xs arbitrary: acc w r w')
  case Nil
  then show ?case using refl by (simp add: io_simps)
next
  case (Cons x xs)
  obtain r1 w1 where b: "body x acc w = (r1, w1)" by (cases "body x acc w")
  from Cons.prems(1) b have 1: "R w w1" by simp
  from Cons.prems(1) have rest: "\<forall>x \<in> set xs. \<forall>acc w r w'. body x acc w = (r, w') \<longrightarrow> R w w'"
    by simp
  show ?case
  proof (cases r1)
    case (Inl e)
    with Cons.prems(2) b have "w' = w1" by (simp add: io_simps)
    with 1 show ?thesis by simp
  next
    case (Inr acc1)
    with Cons.prems(2) b have "for_fold xs acc1 body w1 = (r, w')" by (simp add: io_simps)
    from Cons.IH[OF rest this] 1 show ?thesis by (rule trans[rotated])
  qed
qed

lemma for_fold_rel:
  assumes step: "\<And>x acc w r w'. x \<in> set xs \<Longrightarrow> body x acc w = (r, w') \<Longrightarrow> R w w'"
    and refl: "\<And>w. R w w"
    and trans: "\<And>a b c. R a b \<Longrightarrow> R b c \<Longrightarrow> R a c"
    and run: "for_fold xs acc body w = (r, w')"
  shows "R w w'"
proof (rule for_fold_rel_aux[where R = R, OF refl trans _ run])
  show "\<forall>x \<in> set xs. \<forall>acc w r w'. body x acc w = (r, w') \<longrightarrow> R w w'" using step by blast
qed

lemma merge_entry_keeps:
  assumes name: "valid_name name" and under: "startswith (path_of dst_dir) N"
    and run: "merge_entry src_dir dst_dir name w = (r, w')"
  shows "keeps [N] (disk w) (disk w')"
proof (cases "path_exists (disk w) (path_join dst_dir name)")
  case True
  with run show ?thesis by (simp add: merge_entry_def io_simps keeps_refl)
next
  case False
  with run have "try_copy (path_join src_dir name) (path_join dst_dir name) True True False False w
                 = (r, w')"
    by (simp add: merge_entry_def io_simps)
  from try_copy_keeps[OF False this]
  have k: "keeps [path_of dst_dir @ [name]] (disk w) (disk w')"
    by (simp add: path_of_join_name[OF name])
  have "startswith (path_of dst_dir @ [name]) N"
    using startswith_append[of "path_of dst_dir" "[name]"] under by (rule startswith_trans)
  with k show ?thesis by (auto intro: keeps_weaken)
qed

lemma merge_link_dir_keeps:
  assumes "valid_name name" "startswith (path_of dst_dir) N"
    and run: "merge_link_dir src_dir dst_dir name w = (r, w')"
  shows "keeps [N] (disk w) (disk w')"
proof (cases "islink (disk w) (path_join src_dir name)")
  case True
  with run have "merge_entry src_dir dst_dir name w = (r, w')"
    by (simp add: merge_link_dir_def io_simps)
  with assms(1,2) show ?thesis by (rule merge_entry_keeps)
next
  case False
  with run show ?thesis by (simp add: merge_link_dir_def io_simps keeps_refl)
qed

lemma for_each_keeps:
  assumes "\<And>x w r w'. x \<in> set xs \<Longrightarrow> body x w = (r, w') \<Longrightarrow> keeps roots (disk w) (disk w')"
    and "for_each xs body w = (r, w')"
  shows "keeps roots (disk w) (disk w')"
  by (rule for_each_rel[where R = "\<lambda>w w'. keeps roots (disk w) (disk w')", OF assms(1) _ _ assms(2)])
     (auto intro: keeps_refl keeps_trans)

lemma merge_walked_keeps:
  assumes names: "\<forall>x \<in> set dirs \<union> set files. valid_name x"
    and under: "startswith (path_of (replace1 src_dir src dst)) N"
    and run: "merge_walked src dst (src_dir, dirs, files) extant w = (r, w')"
  shows "keeps [N] (disk w) (disk w')"
proof -
  let ?dd = "replace1 src_dir src dst"
  let ?K = "\<lambda>w w'. keeps [N] (disk w) (disk w')"
  show ?thesis
  proof (cases "list_ex (\<lambda>dir'. py_in dir' ?dd) extant")
    case True
    with run show ?thesis by (simp add: merge_walked_def Let_def io_simps keeps_refl)
  next
    case skip: False
    obtain rm wm where m: "io_bind (io_read (\<lambda>fs. path_exists fs ?dd)) (\<lambda>there.
                     if \<not> there then io_return True
                     else io_get (\<lambda>fs. samefile fs ?dd dst)) w = (rm, wm)"
      by (cases "io_bind (io_read (\<lambda>fs. path_exists fs ?dd)) (\<lambda>there.
                     if \<not> there then io_return True
                     else io_get (\<lambda>fs. samefile fs ?dd dst)) w")
    then have wm: "wm = w" by (auto simp: io_simps split: if_splits)
    show ?thesis
    proof (cases rm)
      case (Inl e)
      with run skip m wm show ?thesis
        by (simp add: merge_walked_def Let_def io_bind_apply keeps_refl)
    next
      case (Inr here)
      show ?thesis
      proof (cases here)
        case False
        with run skip m wm Inr show ?thesis
          by (simp add: merge_walked_def Let_def io_bind_apply io_return_apply keeps_refl)
      next
        case True
        with run skip m wm Inr have body: "io_seq (makedirs ?dd)
             (io_seq (for_each dirs (merge_link_dir src_dir ?dd))
             (io_seq (for_each files (merge_entry src_dir ?dd))
                     (io_return extant))) w = (r, w')"
          by (simp add: merge_walked_def Let_def io_bind_apply)
        obtain r1 w1 where s1: "makedirs ?dd w = (r1, w1)" by (cases "makedirs ?dd w")
        have k1: "?K w w1" using s1 by (rule makedirs_keeps)
        show ?thesis
        proof (cases r1)
          case (Inl e)
          with body s1 have "w' = w1" by (simp add: io_simps)
          with k1 show ?thesis by simp
        next
          case r1: (Inr u)
          obtain r2 w2 where s2: "for_each dirs (merge_link_dir src_dir ?dd) w1 = (r2, w2)"
            by (cases "for_each dirs (merge_link_dir src_dir ?dd) w1")
          have k2: "?K w1 w2"
            using names under by (intro for_each_keeps[OF _ s2] merge_link_dir_keeps) auto
          show ?thesis
          proof (cases r2)
            case (Inl e)
            with body s1 r1 s2 have "w' = w2" by (simp add: io_simps)
            with keeps_trans[OF k1 k2] show ?thesis by simp
          next
            case r2: (Inr u2)
            obtain r3 w3 where s3: "for_each files (merge_entry src_dir ?dd) w2 = (r3, w3)"
              by (cases "for_each files (merge_entry src_dir ?dd) w2")
            have k3: "?K w2 w3"
              using names under by (intro for_each_keeps[OF _ s3] merge_entry_keeps) auto
            from body s1 r1 s2 r2 s3 have "w' = w3"
              by (cases r3) (simp_all add: io_simps)
            with keeps_trans[OF keeps_trans[OF k1 k2] k3] show ?thesis by simp
          qed
        qed
      qed
    qed
  qed
qed

lemma path_of_slash_name:
  assumes "valid_name n"
  shows "path_of (a @ ''/'' @ n) = path_of a @ [n]"
proof -
  have sn: "split_on CHR ''/'' (''/'' @ n) = [[], n]"
    using valid_name_split[OF assms] by simp
  have "split_on CHR ''/'' (a @ (''/'' @ n)) = split_on CHR ''/'' a @ [n]"
    using split_on_nonempty[of "CHR ''/''" a]
    by (simp add: split_on_append[of _ a] sn del: split_on.simps append.simps)
  moreover have "n \<noteq> [] \<and> n \<noteq> ''.'' \<and> n \<noteq> ''..''" using assms by (simp add: valid_name_def)
  ultimately show ?thesis by (simp add: path_of_def walk_comps_snoc del: split_on.simps)
qed

lemma path_of_under:
  "list_all valid_name ns \<Longrightarrow>
   path_of (a @ concat (map (\<lambda>n. ''/'' @ n) ns)) = path_of a @ ns"
proof (induction ns rule: rev_induct)
  case Nil
  then show ?case by simp
next
  case (snoc n ns)
  then have v: "valid_name n" and ih: "path_of (a @ concat (map (\<lambda>n. ''/'' @ n) ns)) = path_of a @ ns"
    by simp_all
  have "a @ concat (map (\<lambda>n. ''/'' @ n) (ns @ [n])) =
        (a @ concat (map (\<lambda>n. ''/'' @ n) ns)) @ ''/'' @ n"
    by simp
  then show ?case using path_of_slash_name[OF v, of "a @ concat (map (\<lambda>n. ''/'' @ n) ns)"] ih
    by simp
qed

lemma replace1_prefix: "src \<noteq> [] \<Longrightarrow> replace1 (src @ rest) src dst = dst @ rest"
  by (cases src) (simp_all add: startswith_append[of "_ # _", simplified])

lemma walk_fuel_under:
  assumes wf: "wf_fs fs"
  shows "topdir \<noteq> [] \<Longrightarrow> \<not> endswith topdir ''/'' \<Longrightarrow>
         (sd, ds, fl) \<in> set (walk_fuel k fs topdir) \<Longrightarrow>
         (\<exists>ns. list_all valid_name ns \<and> sd = topdir @ concat (map (\<lambda>n. ''/'' @ n) ns)) \<and>
         (\<forall>x \<in> set ds \<union> set fl. valid_name x)"
proof (induction k arbitrary: topdir)
  case 0
  then show ?case by simp
next
  case (Suc k)
  from Suc.prems(3) have d: "lstat fs topdir = Some Dir"
    by (auto split: if_splits)
  let ?names = "listdir fs (path_of topdir)"
  have vn: "\<And>x. x \<in> set ?names \<Longrightarrow> valid_name x" using wf by (rule listdir_valid)
  from Suc.prems(3) d consider
    (here) "sd = topdir" "ds = filter (\<lambda>d. isdir fs (path_join topdir d)) ?names"
       "fl = filter (\<lambda>d. \<not> isdir fs (path_join topdir d)) ?names"
  | (below) d' where "d' \<in> set ?names" "(sd, ds, fl) \<in> set (walk_fuel k fs (path_join topdir d'))"
    by (auto simp: Let_def)
  then show ?case
  proof cases
    case here
    have "list_all valid_name [] \<and> sd = topdir @ concat (map (\<lambda>n. ''/'' @ n) [])"
      using here(1) by simp
    then have "\<exists>ns. list_all valid_name ns \<and> sd = topdir @ concat (map (\<lambda>n. ''/'' @ n) ns)"
      by blast
    moreover have "\<forall>x \<in> set ds \<union> set fl. valid_name x" using here(2,3) vn by auto
    ultimately show ?thesis by blast
  next
    case below
    have v: "valid_name d'" using below(1) by (rule vn)
    then have pj: "path_join topdir d' = topdir @ ''/'' @ d'"
      using Suc.prems(1,2) by (auto simp: path_join_def valid_name_def neq_Nil_conv)
    have ne: "topdir @ ''/'' @ d' \<noteq> []" by simp
    have nes: "\<not> endswith (topdir @ ''/'' @ d') ''/''"
      using v by (cases d' rule: rev_cases) (auto simp: endswith_def valid_name_def)
    from Suc.IH[OF ne nes below(2)[unfolded pj]] obtain ns where
      ns: "list_all valid_name ns" "sd = (topdir @ ''/'' @ d') @ concat (map (\<lambda>n. ''/'' @ n) ns)"
      and nm: "\<forall>x \<in> set ds \<union> set fl. valid_name x"
      by blast
    have "list_all valid_name (d' # ns) \<and> sd = topdir @ concat (map (\<lambda>n. ''/'' @ n) (d' # ns))"
      using ns v by simp
    then have "\<exists>ns. list_all valid_name ns \<and> sd = topdir @ concat (map (\<lambda>n. ''/'' @ n) ns)"
      by blast
    with nm show ?thesis by blast
  qed
qed

lemma merge_user_dir_keeps:
  assumes wf: "wf_fs (disk w)" and src: "src \<noteq> []" "\<not> endswith src ''/''"
    and run: "merge_user_dir src dst w = (r, w')"
  shows "keeps [path_of dst] (disk w) (disk w')"
proof -
  let ?walk = "os_walk (disk w) src"
  obtain r1 w1 where f: "for_fold ?walk [] (merge_walked src dst) w = (r1, w1)"
    by (cases "for_fold ?walk [] (merge_walked src dst) w")
  with run have w': "w' = w1"
    by (cases r1) (simp_all add: merge_user_dir_def io_simps)
  have "keeps [path_of dst] (disk w) (disk w1)"
  proof (rule for_fold_rel[where R = "\<lambda>w w'. keeps [path_of dst] (disk w) (disk w')", OF _ _ _ f])
    fix x acc wa ra wb
    assume x: "x \<in> set ?walk" and b: "merge_walked src dst x acc wa = (ra, wb)"
    obtain sd ds fl where xe: "x = (sd, ds, fl)" by (cases x)
    from walk_fuel_under[OF wf src, of sd ds fl "Suc (length (disk w))"] x xe
    obtain ns where ns: "list_all valid_name ns" "sd = src @ concat (map (\<lambda>n. ''/'' @ n) ns)"
      and nm: "\<forall>x \<in> set ds \<union> set fl. valid_name x"
      by (auto simp: os_walk_def)
    have "replace1 sd src dst = dst @ concat (map (\<lambda>n. ''/'' @ n) ns)"
      unfolding ns(2) using src(1) by (rule replace1_prefix)
    then have "path_of (replace1 sd src dst) = path_of dst @ ns"
      using path_of_under[OF ns(1), of dst] by simp
    then have under: "startswith (path_of (replace1 sd src dst)) (path_of dst)"
      by (simp add: startswith_append)
    from merge_walked_keeps[OF nm under b[unfolded xe]]
    show "keeps [path_of dst] (disk wa) (disk wb)" .
  qed (auto intro: keeps_refl keeps_trans)
  with w' show ?thesis by simp
qed

lemma break_link_loop_keeps:
  assumes "break_link_loop old new w = (r, w')"
  shows "keeps [path_of new] (disk w) (disk w')"
proof (cases "lexists (disk w) new \<and> islink (disk w) new")
  case False
  with assms show ?thesis by (auto simp: break_link_loop_def io_simps keeps_refl)
next
  case True
  then obtain t where t: "readlink (disk w) new = Inr t" using islink_readlink by blast
  show ?thesis
  proof (cases "endswith t old")
    case False
    with assms True t show ?thesis by (auto simp: break_link_loop_def io_simps keeps_refl)
  next
    case e: True
    show ?thesis
    proof (cases "fs_remove (disk w) new")
      case (Inl x)
      with assms True t e show ?thesis by (auto simp: break_link_loop_def io_simps keeps_refl)
    next
      case (Inr f)
      with assms True t e have "disk w' = f" by (auto simp: break_link_loop_def io_simps)
      with fs_remove_keeps[OF Inr] show ?thesis by simp
    qed
  qed
qed

lemma fs_symlink_made:
  assumes "fs_symlink fs link old = Inr fs'"
  shows "lstat fs' old = Some (Link link)"
proof -
  from assms have ne: "old \<noteq> []" by (auto simp: fs_symlink_def fs_create_def split: if_splits)
  from fs_create_adds[OF assms[unfolded fs_symlink_def], of "path_of old"] ne
  show ?thesis by (simp add: lstat_def)
qed

lemma redirect_old_path_keeps:
  assumes "redirect_old_path old link w = (r, w')"
  shows "keeps [path_of old] (disk w) (disk w')"
proof (cases "lexists (disk w) old")
  case False
  obtain r1 w1 where m: "makedirs (dirname old) w = (r1, w1)" by (cases "makedirs (dirname old) w")
  have k1: "keeps [path_of old] (disk w) (disk w1)" using m by (rule makedirs_keeps)
  show ?thesis
  proof (cases r1)
    case (Inl e)
    with assms False m have "w' = w1" by (simp add: redirect_old_path_def io_simps)
    with k1 show ?thesis by simp
  next
    case (Inr u)
    show ?thesis
    proof (cases "fs_symlink (disk w1) link old")
      case (Inl e)
      with assms False m Inr have "w' = w1" by (simp add: redirect_old_path_def io_simps)
      with k1 show ?thesis by simp
    next
      case s: (Inr f)
      with assms False m Inr have "disk w' = f" by (auto simp: redirect_old_path_def io_simps)
      with keeps_trans[OF k1 fs_create_keeps[OF s[unfolded fs_symlink_def], of "[path_of old]"]]
      show ?thesis by simp
    qed
  qed
next
  case True
  show ?thesis
  proof (cases "islink (disk w) old")
    case False
    with assms True show ?thesis by (simp add: redirect_old_path_def io_simps keeps_refl)
  next
    case l: True
    then obtain t where t: "readlink (disk w) old = Inr t" using islink_readlink by blast
    show ?thesis
    proof (cases "t = link")
      case True
      with assms \<open>lexists (disk w) old\<close> l t show ?thesis
        by (simp add: redirect_old_path_def io_simps keeps_refl)
    next
      case False
      show ?thesis
      proof (cases "fs_remove (disk w) old")
        case (Inl e)
        with assms \<open>lexists (disk w) old\<close> l t False show ?thesis
          by (auto simp: redirect_old_path_def io_simps keeps_refl)
      next
        case (Inr f1)
        have k1: "keeps [path_of old] (disk w) f1" using Inr by (rule fs_remove_keeps)
        show ?thesis
        proof (cases "fs_symlink f1 link old")
          case (Inl e)
          with assms \<open>lexists (disk w) old\<close> l t False Inr have "disk w' = f1"
            by (auto simp: redirect_old_path_def io_simps)
          with k1 show ?thesis by simp
        next
          case s: (Inr f2)
          with assms \<open>lexists (disk w) old\<close> l t False Inr have "disk w' = f2"
            by (auto simp: redirect_old_path_def io_simps)
          with keeps_trans[OF k1 fs_create_keeps[OF s[unfolded fs_symlink_def], of "[path_of old]"]]
          show ?thesis by simp
        qed
      qed
    qed
  qed
qed

lemma redirect_old_path_links:
  assumes run: "redirect_old_path old link w = (Inr (), w')"
    and pre: "lexists (disk w) old \<Longrightarrow> islink (disk w) old"
  shows "lstat (disk w') old = Some (Link link)"
proof (cases "lexists (disk w) old")
  case False
  obtain r1 w1 where m: "makedirs (dirname old) w = (r1, w1)" by (cases "makedirs (dirname old) w")
  show ?thesis
  proof (cases r1)
    case (Inl e)
    with run False m show ?thesis by (simp add: redirect_old_path_def io_simps)
  next
    case (Inr u)
    show ?thesis
    proof (cases "fs_symlink (disk w1) link old")
      case (Inl e)
      with run False m Inr show ?thesis by (simp add: redirect_old_path_def io_simps)
    next
      case s: (Inr f)
      with run False m Inr have "disk w' = f" by (auto simp: redirect_old_path_def io_simps)
      with fs_symlink_made[OF s] show ?thesis by simp
    qed
  qed
next
  case True
  with pre have l: "islink (disk w) old" by simp
  then obtain t where t: "readlink (disk w) old = Inr t" using islink_readlink by blast
  then have lt: "lstat (disk w) old = Some (Link t)"
    by (auto simp: readlink_def split: option.splits node.splits)
  show ?thesis
  proof (cases "t = link")
    case e: True
    with run True l t have "w' = w" by (simp add: redirect_old_path_def io_simps)
    with lt e show ?thesis by simp
  next
    case False
    show ?thesis
    proof (cases "fs_remove (disk w) old")
      case (Inl e)
      with run True l t False show ?thesis by (auto simp: redirect_old_path_def io_simps)
    next
      case (Inr f1)
      show ?thesis
      proof (cases "fs_symlink f1 link old")
        case (Inl e)
        with run True l t False Inr show ?thesis by (auto simp: redirect_old_path_def io_simps)
      next
        case s: (Inr f2)
        with run True l t False Inr have "disk w' = f2"
          by (auto simp: redirect_old_path_def io_simps)
        with fs_symlink_made[OF s] show ?thesis by simp
      qed
    qed
  qed
qed

lemma migrate_user_path_steps:
  assumes run: "migrate_user_path c (old_rel, new, link) w = (r, w')"
  obtains (loop) e where "r = Inl e" "break_link_loop old_rel new w = (Inl e, w')"
  | (merge) w1 e where "r = Inl e" "break_link_loop old_rel new w = (Inr (), w1)"
      "lexists (disk w1) (prefix_dir c @ old_rel)" "\<not> islink (disk w1) (prefix_dir c @ old_rel)"
      "merge_user_dir (prefix_dir c @ old_rel) new w1 = (Inl e, w')"
  | (rename) w1 w2 e where "r = Inl e" "break_link_loop old_rel new w = (Inr (), w1)"
      "lexists (disk w1) (prefix_dir c @ old_rel)" "\<not> islink (disk w1) (prefix_dir c @ old_rel)"
      "merge_user_dir (prefix_dir c @ old_rel) new w1 = (Inr (), w2)"
      "fs_rename (disk w2) (prefix_dir c @ old_rel) (prefix_dir c @ old_rel @ '' BACKUP'') = Inl e"
      "w' = w2"
  | (moved) w1 w2 f where "break_link_loop old_rel new w = (Inr (), w1)"
      "lexists (disk w1) (prefix_dir c @ old_rel)" "\<not> islink (disk w1) (prefix_dir c @ old_rel)"
      "merge_user_dir (prefix_dir c @ old_rel) new w1 = (Inr (), w2)"
      "fs_rename (disk w2) (prefix_dir c @ old_rel) (prefix_dir c @ old_rel @ '' BACKUP'') = Inr f"
      "redirect_old_path (prefix_dir c @ old_rel) link (w2\<lparr>disk := f\<rparr>) = (r, w')"
  | (kept) w1 where "break_link_loop old_rel new w = (Inr (), w1)"
      "lexists (disk w1) (prefix_dir c @ old_rel) \<longrightarrow> islink (disk w1) (prefix_dir c @ old_rel)"
      "redirect_old_path (prefix_dir c @ old_rel) link w1 = (r, w')"
proof -
  let ?old = "prefix_dir c @ old_rel"
  obtain r0 w1 where b: "break_link_loop old_rel new w = (r0, w1)"
    by (cases "break_link_loop old_rel new w")
  show thesis
  proof (cases r0)
    case (Inl e)
    with run b have "r = Inl e" "w' = w1" by (simp_all add: migrate_user_path_def io_simps)
    with b Inl loop show thesis by auto
  next
    case r0: (Inr u)
    show thesis
    proof (cases "lexists (disk w1) ?old \<and> \<not> islink (disk w1) ?old")
      case False
      with run b r0 have "redirect_old_path ?old link w1 = (r, w')"
        by (simp add: migrate_user_path_def Let_def io_simps)
      with b r0 False kept show thesis by auto
    next
      case True
      obtain r2 w2 where m: "merge_user_dir ?old new w1 = (r2, w2)"
        by (cases "merge_user_dir ?old new w1")
      show thesis
      proof (cases r2)
        case (Inl e)
        with run b r0 True m have "r = Inl e" "w' = w2"
          by (simp_all add: migrate_user_path_def Let_def io_simps)
        with b r0 True m Inl merge show thesis by auto
      next
        case r2: (Inr u2)
        show thesis
        proof (cases "fs_rename (disk w2) ?old (?old @ '' BACKUP'')")
          case (Inl e)
          with run b r0 True m r2 have "r = Inl e" "w' = w2"
            by (simp_all add: migrate_user_path_def Let_def io_simps)
          with b r0 True m r2 Inl rename show thesis by auto
        next
          case (Inr f)
          with run b r0 True m r2 have "redirect_old_path ?old link (w2\<lparr>disk := f\<rparr>) = (r, w')"
            by (simp add: migrate_user_path_def Let_def io_simps)
          with b r0 True m r2 Inr moved show thesis by auto
        qed
      qed
    qed
  qed
qed

lemma keeps_subset: "keeps roots fs fs' \<Longrightarrow> set roots \<subseteq> set roots' \<Longrightarrow> keeps roots' fs fs'"
  by (rule keeps_weaken) (auto intro: startswith_refl)

lemma keeps_wf: "keeps roots fs fs' \<Longrightarrow> wf_fs fs \<Longrightarrow> wf_fs fs'"
  by (simp add: keeps_def)

lemma keeps_node:
  "keeps roots fs fs' \<Longrightarrow> \<forall>r \<in> set roots. \<not> startswith q r \<Longrightarrow> node_at fs q = Some n \<Longrightarrow>
   node_at fs' q = Some n"
  unfolding keeps_def by blast

lemma migrate_user_path_keeps:
  assumes run: "migrate_user_path c (old_rel, new, link) w = (r, w')"
    and wf: "wf_fs (disk w)" and nes: "\<not> endswith (prefix_dir c @ old_rel) ''/''"
  shows "keeps [path_of new, path_of (prefix_dir c @ old_rel),
                path_of (prefix_dir c @ old_rel @ '' BACKUP'')] (disk w) (disk w')"
proof -
  let ?old = "prefix_dir c @ old_rel"
  let ?roots = "[path_of new, path_of ?old, path_of (prefix_dir c @ old_rel @ '' BACKUP'')]"
  have one: "\<And>p a b. keeps [p] a b \<Longrightarrow> p \<in> set ?roots \<Longrightarrow> keeps ?roots a b"
    by (erule keeps_subset) simp
  from run show ?thesis
  proof (cases rule: migrate_user_path_steps)
    case (loop e)
    from break_link_loop_keeps[OF loop(2)] show ?thesis by (rule one) simp
  next
    case (merge w1 e)
    have k1: "keeps ?roots (disk w) (disk w1)"
      using break_link_loop_keeps[OF merge(2)] by (rule one) simp
    have wf1: "wf_fs (disk w1)" using k1 wf by (rule keeps_wf)
    have "keeps ?roots (disk w1) (disk w')"
      using merge_user_dir_keeps[OF wf1 prefix_dir_nonempty nes merge(5)] by (rule one) simp
    with k1 show ?thesis by (rule keeps_trans)
  next
    case (rename w1 w2 e)
    have k1: "keeps ?roots (disk w) (disk w1)"
      using break_link_loop_keeps[OF rename(2)] by (rule one) simp
    have wf1: "wf_fs (disk w1)" using k1 wf by (rule keeps_wf)
    have "keeps ?roots (disk w1) (disk w2)"
      using merge_user_dir_keeps[OF wf1 prefix_dir_nonempty nes rename(5)] by (rule one) simp
    with k1 rename(7) show ?thesis by (auto intro: keeps_trans)
  next
    case (moved w1 w2 f)
    have k1: "keeps ?roots (disk w) (disk w1)"
      using break_link_loop_keeps[OF moved(1)] by (rule one) simp
    have wf1: "wf_fs (disk w1)" using k1 wf by (rule keeps_wf)
    have k2: "keeps ?roots (disk w1) (disk w2)"
      using merge_user_dir_keeps[OF wf1 prefix_dir_nonempty nes moved(4)] by (rule one) simp
    have k3: "keeps ?roots (disk w2) f"
      using fs_rename_keeps[OF moved(5)] by (rule keeps_subset) simp
    have k4: "keeps ?roots f (disk w')"
      using redirect_old_path_keeps[OF moved(6)] by (auto intro: one)
    from k1 k2 k3 k4 show ?thesis by (blast intro: keeps_trans)
  next
    case (kept w1)
    have k1: "keeps ?roots (disk w) (disk w1)"
      using break_link_loop_keeps[OF kept(1)] by (rule one) simp
    have "keeps ?roots (disk w1) (disk w')"
      using redirect_old_path_keeps[OF kept(3)] by (rule one) simp
    with k1 show ?thesis by (rule keeps_trans)
  qed
qed

lemma migrate_user_path_links:
  assumes run: "migrate_user_path c (old_rel, new, link) w = (Inr (), w')"
    and away: "\<not> startswith (path_of (prefix_dir c @ old_rel))
                   (path_of (prefix_dir c @ old_rel @ '' BACKUP''))"
    and ne: "path_of (prefix_dir c @ old_rel) \<noteq> []"
  shows "lstat (disk w') (prefix_dir c @ old_rel) = Some (Link link)"
proof -
  let ?old = "prefix_dir c @ old_rel"
  from run show ?thesis
  proof (cases rule: migrate_user_path_steps)
    case (loop e)
    then show ?thesis by simp
  next
    case (merge w1 e)
    then show ?thesis by simp
  next
    case (rename w1 w2 e)
    then show ?thesis by simp
  next
    case (moved w1 w2 f)
    have "node_at f (path_of ?old) = None"
      using moved(5) away ne by (intro fs_rename_gone[where dst = "prefix_dir c @ old_rel @ '' BACKUP''"]) simp_all
    then have "\<not> lexists (disk (w2\<lparr>disk := f\<rparr>)) ?old"
      by (simp add: lexists_prefix)
    with redirect_old_path_links[OF moved(6)] show ?thesis by simp
  next
    case (kept w1)
    from redirect_old_path_links[OF kept(3)] kept(2) show ?thesis by simp
  qed
qed

lemma startswith_same_prefix: "startswith (b @ xs) (b @ ys) = startswith xs ys"
  by (induction b) auto

lemma for_each_Cons_ok:
  assumes "for_each (x # xs) body w = (Inr (), w')"
  obtains w1 where "body x w = (Inr (), w1)" "for_each xs body w1 = (Inr (), w')"
proof (cases "body x w")
  case (Pair r1 w1)
  with assms have "r1 = Inr ()" "for_each xs body w1 = (Inr (), w')"
    by (cases r1; simp add: io_simps)+
  with Pair that show thesis by blast
qed

lemma backup_paths:
  "path_of (prefix_dir c @ ''drive_c/users/steamuser/Local Settings/Application Data BACKUP'') =
     path_of (prefix_dir c) @
       [''drive_c'', ''users'', ''steamuser'', ''Local Settings'', ''Application Data BACKUP'']"
  "path_of (prefix_dir c @ ''drive_c/users/steamuser/Application Data BACKUP'') =
     path_of (prefix_dir c) @ [''drive_c'', ''users'', ''steamuser'', ''Application Data BACKUP'']"
  "path_of (prefix_dir c @ ''drive_c/users/steamuser/My Documents BACKUP'') =
     path_of (prefix_dir c) @ [''drive_c'', ''users'', ''steamuser'', ''My Documents BACKUP'']"
  by (simp_all add: path_of_prefix walk_comps_def)

lemma user_paths_no_slash:
  "\<not> endswith (prefix_dir c @ ''drive_c/users/steamuser/Local Settings/Application Data'') ''/''"
  "\<not> endswith (prefix_dir c @ ''drive_c/users/steamuser/Application Data'') ''/''"
  "\<not> endswith (prefix_dir c @ ''drive_c/users/steamuser/My Documents'') ''/''"
  by (simp_all add: endswith_def)

text \<open>
  C9: when \<open>migrate_user_paths\<close> returns without raising, each of the three legacy paths
  of its table is a symbolic link, and the target of the link is the link target of its
  entry, whatever the path was before: absent, a real directory, a file, or a link with
  any target.  The file systems in scope have proper names in every path, and the legacy
  paths, their backups and the modern destinations are direct, the destinations being
  directories or missing.
\<close>

theorem migrate_user_paths_links:
  assumes run: "migrate_user_paths c w = (Inr (), w')"
    and wf: "wf_fs (disk w)"
    and direct: "\<forall>(old, new, link) \<in> set (user_path_table c).
        direct_path (disk w) (prefix_dir c @ old) \<and>
        direct_path (disk w) (prefix_dir c @ old @ '' BACKUP'') \<and>
        plain_dir (disk w) new"
  shows "\<forall>(old, new, link) \<in> set (user_path_table c).
           lstat (disk w') (prefix_dir c @ old) = Some (Link link)"
proof -
  let ?B = "path_of (prefix_dir c)"
  let ?o1 = "''drive_c/users/steamuser/Local Settings/Application Data''"
  let ?o2 = "''drive_c/users/steamuser/Application Data''"
  let ?o3 = "''drive_c/users/steamuser/My Documents''"
  let ?n1 = "prefix_dir c @ ''drive_c/users/steamuser/AppData/Local''"
  let ?n2 = "prefix_dir c @ ''drive_c/users/steamuser/AppData/Roaming''"
  let ?n3 = "prefix_dir c @ ''drive_c/users/steamuser/Documents''"
  let ?e1 = "(?o1, ?n1, ''../AppData/Local'')"
  let ?e2 = "(?o2, ?n2, ''./AppData/Roaming'')"
  let ?e3 = "(?o3, ?n3, ''./Documents'')"
  from run have all: "for_each [?e1, ?e2, ?e3] (migrate_user_path c) w = (Inr (), w')"
    by (simp add: migrate_user_paths_def user_path_table_def)
  from all obtain w1 where s1: "migrate_user_path c ?e1 w = (Inr (), w1)"
    and r1: "for_each [?e2, ?e3] (migrate_user_path c) w1 = (Inr (), w')"
    by (rule for_each_Cons_ok)
  from r1 obtain w2 where s2: "migrate_user_path c ?e2 w1 = (Inr (), w2)"
    and r2: "for_each [?e3] (migrate_user_path c) w2 = (Inr (), w')"
    by (rule for_each_Cons_ok)
  from r2 obtain w3 where s3: "migrate_user_path c ?e3 w2 = (Inr (), w3)"
    and r3: "for_each [] (migrate_user_path c) w3 = (Inr (), w')"
    by (rule for_each_Cons_ok)
  from r3 have w3: "w3 = w'" by (simp add: io_simps)
  note paths = user_paths[of c] backup_paths[of c]
  have k1: "keeps [path_of ?n1, path_of (prefix_dir c @ ?o1), path_of (prefix_dir c @ ?o1 @ '' BACKUP'')]
              (disk w) (disk w1)"
    using s1 wf user_paths_no_slash(1) by (rule migrate_user_path_keeps)
  have wf1: "wf_fs (disk w1)" using k1 wf by (rule keeps_wf)
  have k2: "keeps [path_of ?n2, path_of (prefix_dir c @ ?o2), path_of (prefix_dir c @ ?o2 @ '' BACKUP'')]
              (disk w1) (disk w2)"
    using s2 wf1 user_paths_no_slash(2) by (rule migrate_user_path_keeps)
  have wf2: "wf_fs (disk w2)" using k2 wf1 by (rule keeps_wf)
  have k3: "keeps [path_of ?n3, path_of (prefix_dir c @ ?o3), path_of (prefix_dir c @ ?o3 @ '' BACKUP'')]
              (disk w2) (disk w3)"
    using s3 wf2 user_paths_no_slash(3) by (rule migrate_user_path_keeps)
  have l1: "lstat (disk w1) (prefix_dir c @ ?o1) = Some (Link ''../AppData/Local'')"
    using s1 by (rule migrate_user_path_links) (simp_all add: paths startswith_same_prefix)
  have l2: "lstat (disk w2) (prefix_dir c @ ?o2) = Some (Link ''./AppData/Roaming'')"
    using s2 by (rule migrate_user_path_links) (simp_all add: paths startswith_same_prefix)
  have l3: "lstat (disk w3) (prefix_dir c @ ?o3) = Some (Link ''./Documents'')"
    using s3 by (rule migrate_user_path_links) (simp_all add: paths startswith_same_prefix)
  have n1: "node_at (disk w1) (path_of (prefix_dir c @ ?o1)) = Some (Link ''../AppData/Local'')"
    using l1 by (simp add: lstat_prefix)
  have n12: "node_at (disk w2) (path_of (prefix_dir c @ ?o1)) = Some (Link ''../AppData/Local'')"
    using k2 _ n1 by (rule keeps_node) (simp add: paths startswith_same_prefix)
  have n13: "node_at (disk w3) (path_of (prefix_dir c @ ?o1)) = Some (Link ''../AppData/Local'')"
    using k3 _ n12 by (rule keeps_node) (simp add: paths startswith_same_prefix)
  have n2: "node_at (disk w2) (path_of (prefix_dir c @ ?o2)) = Some (Link ''./AppData/Roaming'')"
    using l2 by (simp add: lstat_prefix)
  have n23: "node_at (disk w3) (path_of (prefix_dir c @ ?o2)) = Some (Link ''./AppData/Roaming'')"
    using k3 _ n2 by (rule keeps_node) (simp add: paths startswith_same_prefix)
  have a: "lstat (disk w') (prefix_dir c @ ?o1) = Some (Link ''../AppData/Local'')"
    using n13 w3 by (simp add: lstat_prefix)
  have b: "lstat (disk w') (prefix_dir c @ ?o2) = Some (Link ''./AppData/Roaming'')"
    using n23 w3 by (simp add: lstat_prefix)
  have c: "lstat (disk w') (prefix_dir c @ ?o3) = Some (Link ''./Documents'')"
    using l3 w3 by simp
  from a b c show ?thesis by (simp add: user_path_table_def)
qed


theorem migrate_user_paths_links_witness:
  "fst (migrate_user_paths ex_compat (on_disk legacy_docs_fs)) = Inr () \<and>
   wf_fs legacy_docs_fs \<and>
   list_all (\<lambda>(old, new, link).
        direct_path legacy_docs_fs (prefix_dir ex_compat @ old) \<and>
        direct_path legacy_docs_fs (prefix_dir ex_compat @ old @ '' BACKUP'') \<and>
        plain_dir legacy_docs_fs new) (user_path_table ex_compat) \<and>
   lstat legacy_docs_fs ''/c/pfx/drive_c/users/steamuser/My Documents'' = Some Dir \<and>
   lstat legacy_docs_fs ''/c/pfx/drive_c/users/steamuser/Application Data'' = None \<and>
   lstat (disk (snd (migrate_user_paths ex_compat (on_disk legacy_docs_fs))))
     ''/c/pfx/drive_c/users/steamuser/Local Settings/Application Data'' =
     Some (Link ''../AppData/Local'') \<and>
   lstat (disk (snd (migrate_user_paths ex_compat (on_disk legacy_docs_fs))))
     ''/c/pfx/drive_c/users/steamuser/Application Data'' = Some (Link ''./AppData/Roaming'') \<and>
   lstat (disk (snd (migrate_user_paths ex_compat (on_disk legacy_docs_fs))))
     ''/c/pfx/drive_c/users/steamuser/My Documents'' = Some (Link ''./Documents'')"
proof -
  let ?w = "on_disk legacy_docs_fs"
  let ?run = "migrate_user_paths ex_compat ?w"
  have dw: "disk ?w = legacy_docs_fs" by (simp add: on_disk_def)
  have ok: "fst ?run = Inr ()" by code_simp
  have run: "?run = (Inr (), snd ?run)" using ok by (simp add: prod_eq_iff)
  have wf: "wf_fs legacy_docs_fs" by code_simp
  have d: "list_all (\<lambda>(old, new, link).
        direct_path legacy_docs_fs (prefix_dir ex_compat @ old) \<and>
        direct_path legacy_docs_fs (prefix_dir ex_compat @ old @ '' BACKUP'') \<and>
        plain_dir legacy_docs_fs new) (user_path_table ex_compat)"
    by code_simp
  have d': "\<forall>(old, new, link) \<in> set (user_path_table ex_compat).
        direct_path legacy_docs_fs (prefix_dir ex_compat @ old) \<and>
        direct_path legacy_docs_fs (prefix_dir ex_compat @ old @ '' BACKUP'') \<and>
        plain_dir legacy_docs_fs new"
    using d unfolding list_all_iff .
  have b1: "lstat legacy_docs_fs ''/c/pfx/drive_c/users/steamuser/My Documents'' = Some Dir"
    by code_simp
  have b2: "lstat legacy_docs_fs ''/c/pfx/drive_c/users/steamuser/Application Data'' = None"
    by code_simp
  have pd: "prefix_dir ex_compat = ''/c/pfx/''" by code_simp
  note r = migrate_user_paths_links[OF run, unfolded dw, OF wf d']
  have l1: "lstat (disk (snd ?run))
     ''/c/pfx/drive_c/users/steamuser/Local Settings/Application Data'' =
     Some (Link ''../AppData/Local'')"
    using r by (simp add: user_path_table_def pd)
  have l2: "lstat (disk (snd ?run))
     ''/c/pfx/drive_c/users/steamuser/Application Data'' = Some (Link ''./AppData/Roaming'')"
    using r by (simp add: user_path_table_def pd)
  have l3: "lstat (disk (snd ?run))
     ''/c/pfx/drive_c/users/steamuser/My Documents'' = Some (Link ''./Documents'')"
    using r by (simp add: user_path_table_def pd)
  from ok wf d b1 b2 l1 l2 l3 show ?thesis by (intro conjI)
qed

end
